theory Spec2Isabelle
  imports Main "HOL-Library.Word" "HOL-Library.Sublist"
begin

section \<open>Data model of \<^verbatim>\<open>backend/pkg/kafka/partition_consumer.go\<close>\<close>

text \<open>
  Go's \<^verbatim>\<open>[]byte\<close> is a list of 8-bit words, \<^verbatim>\<open>int64\<close> and \<^verbatim>\<open>int32\<close> are 64- and
  32-bit words (compared as signed values where the code compares them).  A Go string
  is its byte sequence; \<^verbatim>\<open>bytes_of\<close> turns an Isabelle string literal into these bytes.
\<close>

type_synonym byte = "8 word"
type_synonym int32 = "32 word"
type_synonym int64 = "64 word"

definition bytes_of :: "string \<Rightarrow> byte list" where
  "bytes_of s = map of_char s"

text \<open>
  \<^verbatim>\<open>type valueType string\<close> with its four constants.  The code also returns the
  literal \<^verbatim>\<open>""\<close> as a value type (for empty input); the specification calls it
  \<^verbatim>\<open>none\<close>.
\<close>

type_synonym valueType = string

definition valueTypeJSON :: valueType where "valueTypeJSON = ''json''"
definition valueTypeXML :: valueType where "valueTypeXML = ''xml''"
definition valueTypeText :: valueType where "valueTypeText = ''text''"
definition valueTypeBinary :: valueType where "valueTypeBinary = ''binary''"

text \<open>
  \<^verbatim>\<open>DirectEmbedding{ValueType, Value}\<close>.  The struct is declared in another file of the
  package; its two fields are those of the literals \<^verbatim>\<open>getValue\<close> builds.  (Field names
  carry a prefix per struct, since several structs of the code share the names
  \<^verbatim>\<open>Key\<close>, \<^verbatim>\<open>Value\<close>, \<^verbatim>\<open>Offset\<close>.)
\<close>

record DirectEmbedding =
  emb_ValueType :: valueType
  emb_Value :: "byte list"

section \<open>Library functions called by \<^verbatim>\<open>getValue\<close>\<close>

subsection \<open>\<^verbatim>\<open>bytes.TrimLeft(value, " \t\r\n")\<close>\<close>

definition cutset :: "byte list" where
  "cutset = [0x20, 0x09, 0x0D, 0x0A]"

definition TrimLeft :: "byte list \<Rightarrow> byte list \<Rightarrow> byte list" where
  "TrimLeft s cs = dropWhile (\<lambda>b. b \<in> set cs) s"

subsection \<open>\<^verbatim>\<open>utf8.Valid\<close> of Go's standard library\<close>

text \<open>
  The table \<^verbatim>\<open>first\<close> of package \<^verbatim>\<open>unicode/utf8\<close> joined with \<^verbatim>\<open>acceptRanges\<close>: for a
  leading byte at or above \<^verbatim>\<open>RuneSelf\<close> (0x80), the size of the sequence and the range
  accepted for its second byte; \<open>None\<close> is the entry \<^verbatim>\<open>xx\<close> (an illegal starter).
\<close>

definition first :: "byte \<Rightarrow> (nat \<times> byte \<times> byte) option" where
  "first b =
     (if b < 0xC2 then None
      else if b \<le> 0xDF then Some (2, 0x80, 0xBF)
      else if b = 0xE0 then Some (3, 0xA0, 0xBF)
      else if b \<le> 0xEC then Some (3, 0x80, 0xBF)
      else if b = 0xED then Some (3, 0x80, 0x9F)
      else if b \<le> 0xEF then Some (3, 0x80, 0xBF)
      else if b = 0xF0 then Some (4, 0x90, 0xBF)
      else if b \<le> 0xF3 then Some (4, 0x80, 0xBF)
      else if b = 0xF4 then Some (4, 0x80, 0x8F)
      else None)"

definition continuation :: "byte \<Rightarrow> bool" where
  "continuation c = (0x80 \<le> c \<and> c \<le> 0xBF)"

fun utf8_Valid :: "byte list \<Rightarrow> bool" where
  "utf8_Valid [] = True"
| "utf8_Valid (pi # p) =
     (if pi < 0x80 then utf8_Valid p
      else case first pi of
        None \<Rightarrow> False
      | Some (sz, lo, hi) \<Rightarrow>
          if length p + 1 < sz then False
          else if \<not> (lo \<le> p ! 0 \<and> p ! 0 \<le> hi) then False
          else if sz = 2 then utf8_Valid (drop 1 p)
          else if \<not> continuation (p ! 1) then False
          else if sz = 3 then utf8_Valid (drop 2 p)
          else if \<not> continuation (p ! 2) then False
          else utf8_Valid (drop 3 p))"

subsection \<open>\<^verbatim>\<open>base64.StdEncoding.EncodeToString\<close> of Go's standard library\<close>

text \<open>
  The alphabet of RFC 4648 with padding character \<^verbatim>\<open>=\<close>.  Go computes
  \<^verbatim>\<open>val := uint(a)<<16 | uint(b)<<8 | uint(c)\<close> and indexes the alphabet with
  \<^verbatim>\<open>val>>18&0x3F\<close>, \<^verbatim>\<open>val>>12&0x3F\<close>, \<^verbatim>\<open>val>>6&0x3F\<close>, \<^verbatim>\<open>val&0x3F\<close>; the three bytes
  occupy disjoint bits of \<^verbatim>\<open>val\<close> and \<^verbatim>\<open>val\<close> stays below \<open>2 ^ 24\<close>, so the shifts
  and masks are written as multiplication, \<open>div\<close> and \<open>mod\<close> on \<open>nat\<close>.
\<close>

definition encodeStd :: "byte list" where
  "encodeStd = bytes_of ''ABCDEFGHIJKLMNOPQRSTUVWXYZabcdefghijklmnopqrstuvwxyz0123456789+/''"

definition StdPadding :: byte where
  "StdPadding = 0x3D"

definition encode :: "nat \<Rightarrow> byte" where
  "encode i = encodeStd ! (i mod 64)"

fun EncodeToString :: "byte list \<Rightarrow> byte list" where
  "EncodeToString (a # b # c # src) =
     (let val = unat a * 65536 + unat b * 256 + unat c
      in encode (val div 262144) # encode (val div 4096) # encode (val div 64) # encode val
         # EncodeToString src)"
| "EncodeToString [a, b] =
     (let val = unat a * 65536 + unat b * 256
      in [encode (val div 262144), encode (val div 4096), encode (val div 64), StdPadding])"
| "EncodeToString [a] =
     (let val = unat a * 65536
      in [encode (val div 262144), encode (val div 4096), StdPadding, StdPadding])"
| "EncodeToString [] = []"

subsection \<open>The two third-party parsers\<close>

text \<open>
  \<^verbatim>\<open>fastjson.Validate\<close> and goxml2json's \<^verbatim>\<open>xj.Convert\<close> are third-party packages, not
  code of this repository.  \<^verbatim>\<open>getValue\<close> takes them as parameters:
  \<open>fastjson_Validate L s\<close> holds iff \<^verbatim>\<open>fastjson.Validate(s)\<close> returns a nil error, and
  \<open>xj_Convert L s\<close> is \<open>Some j\<close> when \<^verbatim>\<open>xj.Convert\<close> returns the buffer \<open>j\<close> and a nil
  error, \<open>None\<close> when it returns an error.
\<close>

record libs =
  fastjson_Validate :: "byte list \<Rightarrow> bool"
  xj_Convert :: "byte list \<Rightarrow> byte list option"

section \<open>\<^verbatim>\<open>getValue\<close>: the content normalizer\<close>

definition getValue :: "libs \<Rightarrow> byte list \<Rightarrow> valueType \<times> DirectEmbedding" where
  "getValue L value =
     (if length value = 0 then ('''', \<lparr>emb_ValueType = '''', emb_Value = value\<rparr>)
      else
        let trimmed = TrimLeft value cutset in
        if length trimmed = 0
        then (valueTypeText, \<lparr>emb_ValueType = valueTypeText, emb_Value = value\<rparr>)
        else
          let startsWithJSON = (trimmed ! 0 = 0x5B \<or> trimmed ! 0 = 0x7B) in
          if startsWithJSON \<and> fastjson_Validate L trimmed
          then (valueTypeJSON, \<lparr>emb_ValueType = valueTypeJSON, emb_Value = trimmed\<rparr>)
          else
            let startsWithXML = (trimmed ! 0 = 0x3C) in
            case (if startsWithXML then xj_Convert L trimmed else None) of
              Some json \<Rightarrow> (valueTypeXML, \<lparr>emb_ValueType = valueTypeXML, emb_Value = json\<rparr>)
            | None \<Rightarrow>
                if utf8_Valid value
                then (valueTypeText, \<lparr>emb_ValueType = valueTypeText, emb_Value = value\<rparr>)
                else (valueTypeBinary,
                      \<lparr>emb_ValueType = valueTypeBinary, emb_Value = EncodeToString value\<rparr>))"

section \<open>Records, requests and messages\<close>

text \<open>
  \<^verbatim>\<open>time.Time\<close>, as seconds since the epoch and nanoseconds within the second.  The code
  reads \<^verbatim>\<open>Unix()\<close> from it and otherwise passes it on.
\<close>

datatype Time = Time (Unix: int64) (Nanosecond: int32)

text \<open>
  \<^verbatim>\<open>sarama.ConsumerMessage\<close>, the broker record.  \<^verbatim>\<open>Key\<close> and \<^verbatim>\<open>Value\<close> are slices that
  may be \<^verbatim>\<open>nil\<close> (\<open>None\<close>): the code tests \<^verbatim>\<open>m.Value == nil\<close>.  \<open>slice\<close> gives the
  bytes of a possibly nil slice, so that \<^verbatim>\<open>len\<close> of a nil slice is 0.
\<close>

record ConsumerMessage =
  m_Key :: "byte list option"
  m_Value :: "byte list option"
  m_Offset :: int64
  m_Partition :: int32
  m_Timestamp :: Time

definition slice :: "byte list option \<Rightarrow> byte list" where
  "slice s = (case s of None \<Rightarrow> [] | Some bs \<Rightarrow> bs)"

definition len :: "byte list option \<Rightarrow> int" where
  "len s = int (length (slice s))"

record TopicMessage =
  tm_PartitionID :: int32
  tm_Offset :: int64
  tm_Timestamp :: int64
  tm_Key :: DirectEmbedding
  tm_KeyType :: string
  tm_Value :: DirectEmbedding
  tm_ValueType :: string
  tm_Size :: int
  tm_IsValueNull :: bool

record PartitionConsumeRequest =
  req_PartitionID :: int32
  req_IsDrained :: bool
  req_LowWaterMark :: int64
  req_HighWaterMark :: int64
  req_StartOffset :: int64
  req_EndOffset :: int64
  req_MaxMessageCount :: int64

text \<open>\<^verbatim>\<open>interpreterArguments\<close>.\<close>

record interpreterArguments =
  arg_PartitionID :: int32
  arg_Offset :: int64
  arg_Timestamp :: Time
  arg_Key :: DirectEmbedding
  arg_Value :: DirectEmbedding

text \<open>
  The fields of \<^verbatim>\<open>PartitionConsumer\<close> that are data.  Its logger is not modelled, its
  channels and its progress sink appear as effects below, and its \<^verbatim>\<open>sarama.Consumer\<close>
  appears as the environment of \<open>Run\<close>.
\<close>

record PartitionConsumer =
  TopicName :: string
  Req :: PartitionConsumeRequest
  FilterInterpreterCode :: string

section \<open>Errors\<close>

text \<open>
  Go \<^verbatim>\<open>error\<close> values.  \<open>LibError\<close> is an error returned by a collaborator (the broker
  client, the script engine, \<^verbatim>\<open>DirectEmbedding.Parse\<close>); the others are the errors
  \<^verbatim>\<open>SetupInterpreter\<close> and its closure build with \<^verbatim>\<open>fmt.Errorf\<close>.
\<close>

datatype error =
    LibError string
  | FailedToCompile error
  | FailedToParseKey int32 int64
  | FailedToParseValue int32 int64
  | FailedToEvaluate error
  | FailedToCast error
  | ErrTimeout

section \<open>The script engine\<close>

text \<open>
  The value a script call returns (\<^verbatim>\<open>otto.Value\<close>), by kind.  Numbers are kept to the
  integral ones; no claim depends on a number's value.
\<close>

datatype Value =
    valueUndefined
  | valueNull
  | valueBoolean bool
  | valueNumber int
  | valueString string
  | valueObject

text \<open>
  How \<^verbatim>\<open>interpreter.Call\<close> ends, as the closure \<^verbatim>\<open>isMessageOk\<close> observes it:
  it returns a value, it returns an error, the function sent over \<^verbatim>\<open>vm.Interrupt\<close> runs
  inside the call and panics with \<^verbatim>\<open>errTimeout\<close>, or the call panics with another value.
  The watchdog goroutine and its timer are not modelled: \<open>Interrupted\<close> stands for the
  one effect they have on this code.
\<close>

datatype CallResult =
    Returned Value
  | Failed error
  | Interrupted
  | OtherPanic

text \<open>
  The engine is third-party (\<^verbatim>\<open>robertkrimen/otto\<close>), and \<^verbatim>\<open>DirectEmbedding.Parse\<close> lives
  in a file that is not under \<^verbatim>\<open>src/\<close>; the code takes them as they are, and so the model
  takes them as parameters.  \<open>'vm\<close> is the state of one interpreter (scripts can keep
  global state between calls), \<open>'n\<close> the native values \<^verbatim>\<open>Parse\<close> produces.
\<close>

record ('vm, 'n) engine =
  otto_New :: 'vm
  vm_Run :: "string \<Rightarrow> 'vm \<Rightarrow> error option \<times> 'vm"
  vm_Object :: "string \<Rightarrow> 'vm \<Rightarrow> error option \<times> 'vm"
  Object_Call :: "int32 \<times> int64 \<times> Time \<times> 'n \<times> 'n \<Rightarrow> 'vm \<Rightarrow> CallResult \<times> 'vm"
  Value_ToBoolean :: "Value \<Rightarrow> error + bool"
  Parse :: "DirectEmbedding \<Rightarrow> error + 'n"

text \<open>A Go call either returns or unwinds with a panic.\<close>

datatype 'a completion = Returns 'a | Panics

text \<open>
  \<^verbatim>\<open>SetupInterpreter\<close> returns a closure or an error.  The closure is either the dummy
  that accepts every message (\<open>None\<close>) or \<^verbatim>\<open>isMessageOk\<close> closed over the interpreter
  (\<open>Some vm\<close>).
\<close>

definition wrapCode :: "string \<Rightarrow> string" where
  "wrapCode code =
     ''interpreter = {isMessageOk: function(partitionId, offset, timestamp, key, value) {''
     @ code @ ''}}''"

definition SetupInterpreter :: "('vm, 'n) engine \<Rightarrow> PartitionConsumer \<Rightarrow> error + 'vm option" where
  "SetupInterpreter E p =
     (if FilterInterpreterCode p = [] then Inr None
      else
        let vm = otto_New E in
        case vm_Run E (wrapCode (FilterInterpreterCode p)) vm of
          (Some err, _) \<Rightarrow> Inl (FailedToCompile err)
        | (None, vm1) \<Rightarrow>
            (case vm_Object E ''interpreter'' vm1 of
               (Some err, _) \<Rightarrow> Inl err
             | (None, vm2) \<Rightarrow> Inr (Some vm2)))"

text \<open>
  The closure \<^verbatim>\<open>isMessageOk\<close>.  Its deferred \<^verbatim>\<open>recover\<close> turns the panic with
  \<^verbatim>\<open>errTimeout\<close> into the return \<^verbatim>\<open>(false, errTimeout)\<close> and panics again on any other
  value.
\<close>

definition isMessageOk ::
  "('vm, 'n) engine \<Rightarrow> 'vm \<Rightarrow> interpreterArguments \<Rightarrow> (bool \<times> error option) completion \<times> 'vm"
where
  "isMessageOk E vm args =
     (case Parse E (arg_Key args) of
        Inl _ \<Rightarrow>
          (Returns (False, Some (FailedToParseKey (arg_PartitionID args) (arg_Offset args))), vm)
      | Inr key \<Rightarrow>
          (case Parse E (arg_Value args) of
             Inl _ \<Rightarrow>
               (Returns (False, Some (FailedToParseValue (arg_PartitionID args) (arg_Offset args))),
                vm)
           | Inr value \<Rightarrow>
               (case Object_Call E
                       (arg_PartitionID args, arg_Offset args, arg_Timestamp args, key, value) vm of
                  (Failed err, vm') \<Rightarrow> (Returns (False, Some (FailedToEvaluate err)), vm')
                | (Interrupted, vm') \<Rightarrow> (Returns (False, Some ErrTimeout), vm')
                | (OtherPanic, vm') \<Rightarrow> (Panics, vm')
                | (Returned val, vm') \<Rightarrow>
                    (case Value_ToBoolean E val of
                       Inl err \<Rightarrow> (Returns (False, Some (FailedToCast err)), vm')
                     | Inr isOk \<Rightarrow> (Returns (isOk, None), vm')))))"

text \<open>Calling the function \<^verbatim>\<open>SetupInterpreter\<close> returned (\<^verbatim>\<open>isMessageOK(args)\<close> in \<^verbatim>\<open>Run\<close>).\<close>

definition isMessageOK ::
  "('vm, 'n) engine \<Rightarrow> 'vm option \<Rightarrow> interpreterArguments
   \<Rightarrow> (bool \<times> error option) completion \<times> 'vm option"
where
  "isMessageOK E f args =
     (case f of
        None \<Rightarrow> (Returns (True, None), None)
      | Some vm \<Rightarrow> (case isMessageOk E vm args of (r, vm') \<Rightarrow> (r, Some vm')))"

section \<open>\<^verbatim>\<open>Run\<close>: the consumption loop\<close>

text \<open>
  What a run of \<^verbatim>\<open>Run\<close> does to the outside, in the order it does it: calls on the progress sink,
  a message sent on \<^verbatim>\<open>MessageCh\<close>, the deferred \<^verbatim>\<open>pConsumer.Close()\<close> and the deferred
  send on \<^verbatim>\<open>DoneCh\<close>.  The texts given to \<^verbatim>\<open>OnError\<close> are kept by their format string
  and arguments.
\<close>

datatype report =
    CouldntConsumePartition int32 error
  | FailedToSetupInterpreter error
  | FailedToGetNextMessage int32
  | FailedToCheckMessage int32 int64

datatype effect =
    OnError report
  | OnMessageConsumed int
  | MessageCh TopicMessage
  | Close
  | DoneCh

text \<open>
  What the two \<^verbatim>\<open>select\<close> statements choose is the environment's: the outer one receives a
  record, finds the channel closed, or takes \<^verbatim>\<open>ctx.Done()\<close>; the inner one, reached only
  for an accepted record, either hands the message to the receiver or takes \<^verbatim>\<open>ctx.Done()\<close>.
  A run is driven by the list of these choices; when the list is used up the goroutine is
  blocked in the outer \<^verbatim>\<open>select\<close> and has not returned.
\<close>

datatype send_choice = ReceiverTakes | CtxDoneFirst

datatype event =
    Recv ConsumerMessage send_choice
  | ChannelClosed
  | CtxDone

datatype exit_path =
    OpenFailed
  | SetupFailed
  | UpstreamClosed
  | EvaluationError
  | EvaluationPanic
  | SendCancelled
  | BoundsReached
  | Cancelled

definition topicMessage :: "libs \<Rightarrow> ConsumerMessage \<Rightarrow> TopicMessage" where
  "topicMessage L m =
     (let (vType, value) = getValue L (slice (m_Value m));
          (kType, key) = getValue L (slice (m_Key m))
      in \<lparr>tm_PartitionID = m_Partition m,
          tm_Offset = m_Offset m,
          tm_Timestamp = Unix (m_Timestamp m),
          tm_Key = key,
          tm_KeyType = kType,
          tm_Value = value,
          tm_ValueType = vType,
          tm_Size = len (m_Value m),
          tm_IsValueNull = (m_Value m = None)\<rparr>)"

definition args_of :: "libs \<Rightarrow> ConsumerMessage \<Rightarrow> interpreterArguments" where
  "args_of L m =
     \<lparr>arg_PartitionID = m_Partition m,
      arg_Offset = m_Offset m,
      arg_Timestamp = m_Timestamp m,
      arg_Key = snd (getValue L (slice (m_Key m))),
      arg_Value = snd (getValue L (slice (m_Value m)))\<rparr>"

definition messageSize :: "ConsumerMessage \<Rightarrow> int" where
  "messageSize m = len (m_Key m) + len (m_Value m)"

text \<open>
  The \<^verbatim>\<open>for\<close> loop of \<^verbatim>\<open>Run\<close>, from the state it keeps (the closure's interpreter and
  \<^verbatim>\<open>messageCount\<close>) and the choices still to come.  The result is the effects and the
  \<^verbatim>\<open>return\<close> taken, \<open>None\<close> when the loop is still waiting.
\<close>

fun loop ::
  "libs \<Rightarrow> ('vm, 'n) engine \<Rightarrow> PartitionConsumeRequest \<Rightarrow> 'vm option \<Rightarrow> int64 \<Rightarrow> event list
   \<Rightarrow> effect list \<times> exit_path option"
where
  "loop L E req f messageCount [] = ([], None)"
| "loop L E req f messageCount (ChannelClosed # evs) =
     ([OnError (FailedToGetNextMessage (req_PartitionID req))], Some UpstreamClosed)"
| "loop L E req f messageCount (CtxDone # evs) = ([], Some Cancelled)"
| "loop L E req f messageCount (Recv m sc # evs) =
     (case isMessageOK E f (args_of L m) of
        (Panics, f') \<Rightarrow> ([OnMessageConsumed (messageSize m)], Some EvaluationPanic)
      | (Returns (isOK, Some err), f') \<Rightarrow>
          ([OnMessageConsumed (messageSize m),
            OnError (FailedToCheckMessage (m_Partition m) (m_Offset m))],
           Some EvaluationError)
      | (Returns (isOK, None), f') \<Rightarrow>
          (let messageCount' = (if isOK then messageCount + 1 else messageCount) in
           if isOK \<and> sc = CtxDoneFirst
           then ([OnMessageConsumed (messageSize m)], Some SendCancelled)
           else
             let out = OnMessageConsumed (messageSize m)
                       # (if isOK then [MessageCh (topicMessage L m)] else [])
             in if sint (req_EndOffset req) \<le> sint (m_Offset m)
                   \<or> messageCount' = req_MaxMessageCount req
                then (out, Some BoundsReached)
                else (case loop L E req f' messageCount' evs of
                        (rest, ex) \<Rightarrow> (out @ rest, ex))))"

text \<open>
  The environment of one run: whether \<^verbatim>\<open>ConsumePartition\<close> fails, and the choices of the
  \<^verbatim>\<open>select\<close> statements.
\<close>

record environment =
  ConsumePartition :: "error option"
  choices :: "event list"

text \<open>
  \<^verbatim>\<open>Run\<close>.  The two deferred calls run on every return and on a panic, last deferred
  first: \<^verbatim>\<open>pConsumer.Close()\<close> (deferred only once the subscription is open), then the
  send on \<^verbatim>\<open>DoneCh\<close>.  They do not run while the goroutine is still blocked in the loop.
\<close>

definition Run ::
  "libs \<Rightarrow> ('vm, 'n) engine \<Rightarrow> PartitionConsumer \<Rightarrow> environment
   \<Rightarrow> effect list \<times> exit_path option"
where
  "Run L E p env =
     (case ConsumePartition env of
        Some err \<Rightarrow>
          ([OnError (CouldntConsumePartition (req_PartitionID (Req p)) err), DoneCh],
           Some OpenFailed)
      | None \<Rightarrow>
          (case SetupInterpreter E p of
             Inl err \<Rightarrow> ([OnError (FailedToSetupInterpreter err), Close, DoneCh], Some SetupFailed)
           | Inr isMessageOK_fn \<Rightarrow>
               (case loop L E (Req p) isMessageOK_fn 0 (choices env) of
                  (t, None) \<Rightarrow> (t, None)
                | (t, Some ex) \<Rightarrow> (t @ [Close, DoneCh], Some ex))))"

section \<open>Observations on a run\<close>

text \<open>
  What the properties below read off a run: the messages sent on \<^verbatim>\<open>MessageCh\<close>, in order,
  and the records the broker delivered, in order.
\<close>

fun sent :: "effect list \<Rightarrow> TopicMessage list" where
  "sent [] = []"
| "sent (MessageCh tm # t) = tm # sent t"
| "sent (e # t) = sent t"

fun delivered :: "event list \<Rightarrow> ConsumerMessage list" where
  "delivered [] = []"
| "delivered (Recv m sc # evs) = m # delivered evs"
| "delivered (ev # evs) = delivered evs"

text \<open>
  The stop condition as the specification words it, for the record at position \<open>j\<close> of
  the records \<open>ms\<close> whose filter verdicts are \<open>oks\<close>: its offset has reached
  \<^verbatim>\<open>endOffset\<close>, or the number of records accepted so far, this one included, equals
  \<^verbatim>\<open>maxMessageCount\<close> (as an \<^verbatim>\<open>int64\<close>, which is how the code counts).
\<close>

definition accepted_count :: "bool list \<Rightarrow> nat" where
  "accepted_count oks = length (filter (\<lambda>ok. ok) oks)"

definition stop_after :: "PartitionConsumeRequest \<Rightarrow> ConsumerMessage list \<Rightarrow> bool list \<Rightarrow> nat \<Rightarrow> bool" where
  "stop_after req ms oks j =
     (sint (req_EndOffset req) \<le> sint (m_Offset (ms ! j))
      \<or> (of_nat (accepted_count (take (Suc j) oks)) :: int64) = req_MaxMessageCount req)"

text \<open>
  The results of the filter on the records \<open>ms\<close>, one evaluation after the other on the
  same interpreter, and the effects of processing records with given verdicts: the byte
  count of each, followed by the message when it was accepted.
\<close>

fun filter_all ::
  "libs \<Rightarrow> ('vm, 'n) engine \<Rightarrow> 'vm option \<Rightarrow> ConsumerMessage list
   \<Rightarrow> (bool \<times> error option) completion list"
where
  "filter_all L E f [] = []"
| "filter_all L E f (m # ms) =
     (case isMessageOK E f (args_of L m) of (r, f') \<Rightarrow> r # filter_all L E f' ms)"

fun deliveries :: "libs \<Rightarrow> ConsumerMessage list \<Rightarrow> bool list \<Rightarrow> effect list" where
  "deliveries L (m # ms) (ok # oks) =
     OnMessageConsumed (messageSize m) # (if ok then [MessageCh (topicMessage L m)] else [])
     @ deliveries L ms oks"
| "deliveries L ms oks = []"

section \<open>Base64 decoding, for the round trip\<close>

text \<open>
  The decoder of RFC 4648, section 4, with padding: the inverse the round-trip property
  speaks of.  It is not code of the program; it is written from the standard.
  \<open>decode6\<close> is the position of a character in the alphabet.
\<close>

fun index_of :: "'a \<Rightarrow> 'a list \<Rightarrow> nat option" where
  "index_of x [] = None"
| "index_of x (y # ys) = (if x = y then Some 0 else map_option Suc (index_of x ys))"

definition decode6 :: "byte \<Rightarrow> nat option" where
  "decode6 c = index_of c encodeStd"

definition decode_quantum :: "byte \<Rightarrow> byte \<Rightarrow> byte \<Rightarrow> byte \<Rightarrow> byte list option" where
  "decode_quantum c0 c1 c2 c3 =
     (case (decode6 c0, decode6 c1, decode6 c2, decode6 c3) of
        (Some s0, Some s1, Some s2, Some s3) \<Rightarrow>
          (let v = s0 * 262144 + s1 * 4096 + s2 * 64 + s3
           in Some [of_nat (v div 65536), of_nat (v div 256), of_nat v])
      | _ \<Rightarrow> None)"

definition decode_final :: "byte \<Rightarrow> byte \<Rightarrow> byte \<Rightarrow> byte \<Rightarrow> byte list option" where
  "decode_final c0 c1 c2 c3 =
     (if c2 = StdPadding \<and> c3 = StdPadding then
        (case (decode6 c0, decode6 c1) of
           (Some s0, Some s1) \<Rightarrow> Some [of_nat ((s0 * 64 + s1) div 16)]
         | _ \<Rightarrow> None)
      else if c3 = StdPadding then
        (case (decode6 c0, decode6 c1, decode6 c2) of
           (Some s0, Some s1, Some s2) \<Rightarrow>
             (let v = (s0 * 4096 + s1 * 64 + s2) div 4
              in Some [of_nat (v div 256), of_nat v])
         | _ \<Rightarrow> None)
      else decode_quantum c0 c1 c2 c3)"

fun base64_decode :: "byte list \<Rightarrow> byte list option" where
  "base64_decode [] = Some []"
| "base64_decode [c0, c1, c2, c3] = decode_final c0 c1 c2 c3"
| "base64_decode (c0 # c1 # c2 # c3 # rest) =
     (case decode_quantum c0 c1 c2 c3 of
        None \<Rightarrow> None
      | Some bs \<Rightarrow> map_option (\<lambda>r. bs @ r) (base64_decode rest))"
| "base64_decode _ = None"

section \<open>Concrete instances of the parameters\<close>

text \<open>
  A table of verdicts of \<^verbatim>\<open>fastjson.Validate\<close>, to run \<open>getValue\<close> on concrete inputs:
  it accepts the documents \<^verbatim>\<open>{}\<close>, \<^verbatim>\<open>1\<close> and \<^verbatim>\<open>["\xff"]\<close> (the validator accepts a
  top-level number, and scans a string body for control characters and escapes only, not
  for UTF-8 validity).  The table is used only at these inputs and at inputs that never
  reach a parser.
\<close>

definition table_libs :: libs where
  "table_libs =
     \<lparr>fastjson_Validate =
        (\<lambda>s. s = [0x7B, 0x7D] \<or> s = [0x31] \<or> s = [0x5B, 0x22, 0xFF, 0x22, 0x5D]),
      xj_Convert = (\<lambda>s. None)\<rparr>"

text \<open>
  Two conversions to a boolean for \<open>Value_ToBoolean\<close>: \<open>truthy\<close> is the conversion
  of the script engine the code uses (otto's \<^verbatim>\<open>Value.ToBoolean\<close> applies JavaScript's
  \<^verbatim>\<open>ToBoolean\<close> and fails on none of these kinds), \<open>strict\<close> is a conversion that
  rejects every value that is not a boolean.
\<close>

definition truthy :: "Value \<Rightarrow> error + bool" where
  "truthy v =
     (case v of
        valueUndefined \<Rightarrow> Inr False
      | valueNull \<Rightarrow> Inr False
      | valueBoolean b \<Rightarrow> Inr b
      | valueNumber n \<Rightarrow> Inr (n \<noteq> 0)
      | valueString s \<Rightarrow> Inr (s \<noteq> [])
      | valueObject \<Rightarrow> Inr True)"

definition strict :: "Value \<Rightarrow> error + bool" where
  "strict v = (case v of valueBoolean b \<Rightarrow> Inr b | _ \<Rightarrow> Inl (LibError ''not a boolean''))"

text \<open>
  An engine whose compiled script is given by what a call does at each offset; the
  interpreter state counts the calls, and \<^verbatim>\<open>Parse\<close> hands the embedding's bytes on.
\<close>

definition script_engine ::
  "(int64 \<Rightarrow> CallResult) \<Rightarrow> (Value \<Rightarrow> error + bool) \<Rightarrow> (nat, byte list) engine"
where
  "script_engine script toBoolean =
     \<lparr>otto_New = 0,
      vm_Run = (\<lambda>code vm. (None, vm)),
      vm_Object = (\<lambda>name vm. (None, vm)),
      Object_Call = (\<lambda>(partitionId, offset, timestamp, key, value) vm. (script offset, Suc vm)),
      Value_ToBoolean = toBoolean,
      Parse = (\<lambda>e. Inr (emb_Value e))\<rparr>"

text \<open>A record with the given offset, key and value, and a request with given bounds.\<close>

definition record_at :: "int64 \<Rightarrow> byte list \<Rightarrow> byte list \<Rightarrow> ConsumerMessage" where
  "record_at off k v =
     \<lparr>m_Key = Some k, m_Value = Some v, m_Offset = off, m_Partition = 0,
      m_Timestamp = Time 0 0\<rparr>"

definition request :: "int64 \<Rightarrow> int64 \<Rightarrow> int64 \<Rightarrow> PartitionConsumeRequest" where
  "request start end maxCount =
     \<lparr>req_PartitionID = 0, req_IsDrained = False, req_LowWaterMark = 0,
      req_HighWaterMark = end, req_StartOffset = start, req_EndOffset = end,
      req_MaxMessageCount = maxCount\<rparr>"

definition consumer :: "string \<Rightarrow> PartitionConsumeRequest \<Rightarrow> PartitionConsumer" where
  "consumer code req = \<lparr>TopicName = ''topic'', Req = req, FilterInterpreterCode = code\<rparr>"

text \<open>
  Scripts: one that accepts the even offsets (\<^verbatim>\<open>return offset % 2 == 0\<close>), one that
  returns the number 1 (\<^verbatim>\<open>return 1\<close>), one that throws, one whose call is interrupted
  by the watchdog, and one whose call panics with a value other than \<^verbatim>\<open>errTimeout\<close>.
\<close>

definition even_offsets :: "int64 \<Rightarrow> CallResult" where
  "even_offsets off = Returned (valueBoolean (even (unat off)))"

definition returns_one :: "int64 \<Rightarrow> CallResult" where
  "returns_one off = Returned (valueNumber 1)"

definition throws :: "int64 \<Rightarrow> CallResult" where
  "throws off = Failed (LibError ''ReferenceError'')"

definition never_returns :: "int64 \<Rightarrow> CallResult" where
  "never_returns off = Interrupted"

definition panics :: "int64 \<Rightarrow> CallResult" where
  "panics off = OtherPanic"

text \<open>An engine on which the wrapped code does not compile.\<close>

definition broken_engine :: "(nat, byte list) engine" where
  "broken_engine =
     (script_engine throws truthy)\<lparr>vm_Run := (\<lambda>code vm. (Some (LibError ''SyntaxError''), vm))\<rparr>"

text \<open>
  Records with key \<^verbatim>\<open>k\<close> and value \<^verbatim>\<open>v\<close> at the given offsets, each handed to the
  receiver when accepted.
\<close>

definition records_at :: "int64 list \<Rightarrow> event list" where
  "records_at offs = map (\<lambda>off. Recv (record_at off [0x6B] [0x76]) ReceiverTakes) offs"

section \<open>Properties of the content normalizer\<close>

lemma TrimLeft_all_cutset:
  "set value \<subseteq> set cutset \<Longrightarrow> TrimLeft value cutset = []"
  by (auto simp: TrimLeft_def)

lemma getValue_type_nonempty:
  "value \<noteq> [] \<Longrightarrow> fst (getValue L value) \<in> {valueTypeJSON, valueTypeXML, valueTypeText, valueTypeBinary}"
  by (simp add: getValue_def Let_def split: option.split)

lemma getValue_embedding_type:
  "emb_ValueType (snd (getValue L value)) = fst (getValue L value)"
  by (simp add: getValue_def Let_def split: option.split)

subsection \<open>Decoding what \<^verbatim>\<open>EncodeToString\<close> produced\<close>

lemma index_of_nth: "distinct xs \<Longrightarrow> i < length xs \<Longrightarrow> index_of (xs ! i) xs = Some i"
proof (induction xs arbitrary: i)
  case Nil
  then show ?case by simp
next
  case (Cons y ys)
  show ?case
  proof (cases i)
    case 0
    then show ?thesis by simp
  next
    case (Suc j)
    with Cons.prems have "ys ! j \<noteq> y" "distinct ys" "j < length ys" by auto
    with Cons.IH [of j] Suc show ?thesis by simp
  qed
qed

lemma length_encodeStd: "length encodeStd = 64"
  by (simp add: encodeStd_def bytes_of_def)

lemma distinct_encodeStd: "distinct encodeStd"
  by (simp add: encodeStd_def bytes_of_def)

lemma pad_not_in_encodeStd: "StdPadding \<notin> set encodeStd"
  by (simp add: encodeStd_def bytes_of_def StdPadding_def)

lemma decode6_encode: "decode6 (encode i) = Some (i mod 64)"
  by (simp add: decode6_def encode_def index_of_nth distinct_encodeStd length_encodeStd)

lemma encode_not_pad: "encode i \<noteq> StdPadding"
proof -
  have "encode i \<in> set encodeStd"
    by (simp add: encode_def length_encodeStd)
  with pad_not_in_encodeStd show ?thesis by auto
qed

lemma sextets_recompose:
  fixes v :: nat
  assumes "v < 16777216"
  shows "(v div 262144) mod 64 * 262144 + (v div 4096) mod 64 * 4096 + (v div 64) mod 64 * 64 + v mod 64 = v"
proof -
  define q1 where "q1 = v div 64"
  define q2 where "q2 = q1 div 64"
  define q3 where "q3 = q2 div 64"
  have d2: "v div 4096 = q2"
    unfolding q2_def q1_def by (simp add: div_mult2_eq [symmetric])
  have d3: "v div 262144 = q3"
    unfolding q3_def q2_def q1_def by (simp add: div_mult2_eq [symmetric])
  have small: "q3 < 64"
    using assms unfolding d3 [symmetric] by simp
  have e1: "v = q1 * 64 + v mod 64" unfolding q1_def by simp
  have e2: "q1 = q2 * 64 + q1 mod 64" unfolding q2_def by simp
  have e3: "q2 = q3 * 64 + q2 mod 64" unfolding q3_def by simp
  have "q3 mod 64 * 262144 + q2 mod 64 * 4096 + q1 mod 64 * 64 + v mod 64 = v"
    using small e1 e2 e3 by simp
  then show ?thesis
    by (simp add: d2 d3 q1_def)
qed


lemma unat_byte_less: "unat (a :: byte) < 256"
  using unsigned_less [of a, where ?'a = nat] by simp

lemma val_bound:
  fixes a b c :: byte
  shows "unat a * 65536 + unat b * 256 + unat c < 16777216"
  using unat_byte_less [of a] unat_byte_less [of b] unat_byte_less [of c] by simp

lemma byte_256: "(256 :: byte) = 0"
  by simp

lemma val_bytes:
  fixes a b c :: byte
  defines "v \<equiv> unat a * 65536 + unat b * 256 + unat c"
  shows "(of_nat (v div 65536) :: byte) = a" and "(of_nat (v div 256) :: byte) = b"
    and "(of_nat v :: byte) = c"
proof -
  note bounds = unat_byte_less [of a] unat_byte_less [of b] unat_byte_less [of c]
  have "v div 65536 = unat a" using bounds unfolding v_def by simp
  then show "(of_nat (v div 65536) :: byte) = a" by simp
  have "v div 256 = unat a * 256 + unat b" using bounds unfolding v_def by simp
  then show "(of_nat (v div 256) :: byte) = b" by (simp add: byte_256)
  have b65536: "(65536 :: byte) = 0" by simp
  show "(of_nat v :: byte) = c" unfolding v_def by (simp add: byte_256 b65536)
qed

lemma quantum_roundtrip:
  fixes a b c :: byte
  defines "v \<equiv> unat a * 65536 + unat b * 256 + unat c"
  shows "decode_quantum (encode (v div 262144)) (encode (v div 4096)) (encode (v div 64)) (encode v)
         = Some [a, b, c]"
proof -
  let ?s = "v div 262144 mod 64 * 262144 + v div 4096 mod 64 * 4096 + v div 64 mod 64 * 64
            + v mod 64"
  have dq: "decode_quantum (encode (v div 262144)) (encode (v div 4096)) (encode (v div 64)) (encode v)
            = Some [of_nat (?s div 65536), of_nat (?s div 256), of_nat ?s]"
    by (simp only: decode_quantum_def decode6_encode Let_def prod.simps option.simps)
  have "v < 16777216" unfolding v_def by (rule val_bound)
  then have eq: "?s = v" by (rule sextets_recompose)
  show ?thesis
    unfolding dq eq unfolding v_def by (simp only: val_bytes)
qed

lemma three_sextets:
  fixes v :: nat
  assumes "v < 16777216" and "v mod 64 = 0"
  shows "v div 262144 mod 64 * 4096 + v div 4096 mod 64 * 64 + v div 64 mod 64 = v div 64"
proof -
  define s0 where "s0 = v div 262144 mod 64"
  define s1 where "s1 = v div 4096 mod 64"
  define s2 where "s2 = v div 64 mod 64"
  have "s0 * 262144 + s1 * 4096 + s2 * 64 + v mod 64 = v"
    unfolding s0_def s1_def s2_def by (rule sextets_recompose) fact
  then have "(s0 * 4096 + s1 * 64 + s2) * 64 = v" using assms(2) by simp
  then have "v div 64 = s0 * 4096 + s1 * 64 + s2" by (metis nonzero_mult_div_cancel_right zero_neq_numeral)
  then show ?thesis unfolding s0_def s1_def s2_def by (rule sym)
qed

lemma final2_roundtrip:
  fixes a b :: byte
  defines "v \<equiv> unat a * 65536 + unat b * 256"
  shows "decode_final (encode (v div 262144)) (encode (v div 4096)) (encode (v div 64)) StdPadding
         = Some [a, b]"
proof -
  let ?t = "v div 262144 mod 64 * 4096 + v div 4096 mod 64 * 64 + v div 64 mod 64"
  have df: "decode_final (encode (v div 262144)) (encode (v div 4096)) (encode (v div 64)) StdPadding
            = Some [of_nat (?t div 4 div 256), of_nat (?t div 4)]"
    by (simp add: decode_final_def decode6_encode encode_not_pad Let_def del: of_nat_add of_nat_mult)
  have lt: "v < 16777216" using val_bound [of a b 0] unfolding v_def by simp
  have "v = 64 * (unat a * 1024 + unat b * 4)" unfolding v_def by simp
  then have m: "v mod 64 = 0" by (simp only: mod_mult_self1_is_0)
  have t: "?t = v div 64" using lt m by (rule three_sextets)
  have q: "v div 64 div 4 = unat a * 256 + unat b" unfolding v_def by simp
  have "(unat a * 256 + unat b) div 256 = unat a" using unat_byte_less [of b] by simp
  then show ?thesis
    unfolding df t q by (simp add: byte_256)
qed

lemma final1_roundtrip:
  fixes a :: byte
  defines "v \<equiv> unat a * 65536"
  shows "decode_final (encode (v div 262144)) (encode (v div 4096)) StdPadding StdPadding
         = Some [a]"
proof -
  let ?t = "v div 262144 mod 64 * 64 + v div 4096 mod 64"
  have df: "decode_final (encode (v div 262144)) (encode (v div 4096)) StdPadding StdPadding
            = Some [of_nat (?t div 16)]"
    by (simp add: decode_final_def decode6_encode Let_def del: of_nat_add of_nat_mult)
  define n where "n = unat a"
  have d1: "v div 262144 = n div 4" unfolding v_def n_def by simp
  have d2: "v div 4096 = n * 16" unfolding v_def n_def by simp
  have "n div 4 < 64" using unat_byte_less [of a] unfolding n_def by simp
  then have s0: "n div 4 mod 64 = n div 4" by simp
  have "(16 * n) mod (16 * 4) = 16 * (n mod 4)" by (rule mult_mod_right [symmetric])
  then have s1: "(n * 16) mod 64 = 16 * (n mod 4)" by (simp add: mult.commute)
  define q where "q = n div 4"
  define r where "r = n mod 4"
  have n: "n = 4 * q + r" unfolding q_def r_def by simp
  have "q * 64 + 16 * r = 16 * (4 * q + r)" by simp
  then have "n div 4 * 64 + 16 * (n mod 4) = 16 * n"
    unfolding q_def [symmetric] r_def [symmetric] n [symmetric] .
  then have "?t = 16 * n" unfolding d1 d2 s1 by (simp only: s0)
  then have "?t div 16 = unat a" unfolding n_def by simp
  then show ?thesis unfolding df by simp
qed

lemma EncodeToString_nonempty: "src \<noteq> [] \<Longrightarrow> EncodeToString src \<noteq> []"
  by (cases src rule: EncodeToString.cases) (simp_all add: Let_def)

lemma base64_roundtrip: "base64_decode (EncodeToString bs) = Some bs"
proof (induction bs rule: EncodeToString.induct)
  case (1 a b c src)
  let ?v = "unat a * 65536 + unat b * 256 + unat c"
  have enc: "EncodeToString (a # b # c # src)
             = encode (?v div 262144) # encode (?v div 4096) # encode (?v div 64) # encode ?v
               # EncodeToString src"
    by (simp add: Let_def)
  show ?case
  proof (cases "src = []")
    case True
    then show ?thesis
      unfolding enc using quantum_roundtrip [of a b c]
      by (simp add: decode_final_def encode_not_pad)
  next
    case False
    then obtain y ys where ne: "EncodeToString src = y # ys"
      using EncodeToString_nonempty [of src] by (cases "EncodeToString src") auto
    from 1 [OF refl] have "base64_decode (y # ys) = Some src" unfolding ne .
    then show ?thesis
      unfolding enc ne using quantum_roundtrip [of a b c] by simp
  qed
next
  case (2 a b)
  then show ?case using final2_roundtrip [of a b] by (simp add: Let_def)
next
  case (3 a)
  then show ?case using final1_roundtrip [of a] by (simp add: Let_def)
next
  case 4
  then show ?case by simp
qed

subsection \<open>Classification\<close>

lemma utf8_Valid_ascii: "\<forall>b \<in> set bs. b < 0x80 \<Longrightarrow> utf8_Valid bs"
  by (induction bs) simp_all

lemma cutset_ascii: "b \<in> set cutset \<Longrightarrow> b < 0x80"
  by (auto simp: cutset_def)

lemma TrimLeft_empty_utf8: "TrimLeft value cutset = [] \<Longrightarrow> utf8_Valid value"
  by (rule utf8_Valid_ascii) (auto simp: TrimLeft_def cutset_ascii)

lemma TrimLeft_suffix:
  "takeWhile (\<lambda>b. b \<in> set cutset) value @ TrimLeft value cutset = value"
  by (simp add: TrimLeft_def)

text \<open>
  C8.  The content type is the empty one (\<^verbatim>\<open>none\<close>) exactly when the input bytes are
  empty, in the returned type and in the embedding's own tag; in particular a non-empty
  input made of whitespace only is classified \<^verbatim>\<open>text\<close>.
\<close>

theorem getValue_none_iff_empty:
  "(fst (getValue L value) = [] \<longleftrightarrow> value = [])
   \<and> (emb_ValueType (snd (getValue L value)) = [] \<longleftrightarrow> value = [])
   \<and> (value \<noteq> [] \<and> set value \<subseteq> set cutset \<longrightarrow> fst (getValue L value) = valueTypeText)"
proof -
  have none: "fst (getValue L value) = [] \<longleftrightarrow> value = []"
  proof
    assume "fst (getValue L value) = []"
    show "value = []"
    proof (rule ccontr)
      assume "value \<noteq> []"
      from getValue_type_nonempty [OF this, of L] \<open>fst (getValue L value) = []\<close>
      show False
        by (auto simp: valueTypeJSON_def valueTypeXML_def valueTypeText_def valueTypeBinary_def)
    qed
  next
    assume "value = []"
    then show "fst (getValue L value) = []" by (simp add: getValue_def)
  qed
  have ws: "fst (getValue L value) = valueTypeText" if "value \<noteq> []" "set value \<subseteq> set cutset"
    using that by (simp add: getValue_def TrimLeft_all_cutset)
  from none ws show ?thesis by (simp add: getValue_embedding_type)
qed

theorem getValue_none_iff_empty_witness:
  "[0x20, 0x0A] \<noteq> ([] :: byte list)
   \<and> set [0x20, 0x0A :: byte] \<subseteq> set cutset
   \<and> fst (getValue table_libs [0x20, 0x0A]) = valueTypeText
   \<and> fst (getValue table_libs [0x20, 0x0A]) \<noteq> []
   \<and> fst (getValue table_libs []) = []"
  using getValue_none_iff_empty [of table_libs "[0x20, 0x0A]"]
        getValue_none_iff_empty [of table_libs "[]"]
  by (simp add: cutset_def valueTypeText_def)

text \<open>
  C3 (as amended).  When the first byte after the leading whitespace is \<^verbatim>\<open>[\<close> or \<^verbatim>\<open>{\<close>
  and the trimmed bytes pass the JSON validation, the result is \<^verbatim>\<open>json\<close> and the embedding
  holds the trimmed bytes: the input without its leading whitespace, byte for byte.
\<close>

theorem getValue_json:
  assumes "TrimLeft value cutset \<noteq> []"
    and "TrimLeft value cutset ! 0 = 0x5B \<or> TrimLeft value cutset ! 0 = 0x7B"
    and "fastjson_Validate L (TrimLeft value cutset)"
  shows "getValue L value
           = (valueTypeJSON, \<lparr>emb_ValueType = valueTypeJSON, emb_Value = TrimLeft value cutset\<rparr>)
         \<and> takeWhile (\<lambda>b. b \<in> set cutset) value @ emb_Value (snd (getValue L value)) = value"
proof -
  from assms(1) have "value \<noteq> []" by (auto simp: TrimLeft_def)
  with assms have "getValue L value
           = (valueTypeJSON, \<lparr>emb_ValueType = valueTypeJSON, emb_Value = TrimLeft value cutset\<rparr>)"
    by (simp add: getValue_def Let_def)
  then show ?thesis by (simp add: TrimLeft_suffix)
qed

theorem getValue_json_witness:
  "TrimLeft [0x20, 0x7B, 0x7D] cutset \<noteq> []
   \<and> TrimLeft [0x20, 0x7B, 0x7D] cutset ! 0 = 0x7B
   \<and> fastjson_Validate table_libs (TrimLeft [0x20, 0x7B, 0x7D] cutset)
   \<and> getValue table_libs [0x20, 0x7B, 0x7D]
       = (valueTypeJSON, \<lparr>emb_ValueType = valueTypeJSON, emb_Value = [0x7B, 0x7D]\<rparr>)"
proof -
  have t: "TrimLeft [0x20, 0x7B, 0x7D] cutset = [0x7B, 0x7D]"
    by (simp add: TrimLeft_def cutset_def)
  have v: "fastjson_Validate table_libs [0x7B, 0x7D]"
    by (simp add: table_libs_def)
  show ?thesis
    using getValue_json [of "[0x20, 0x7B, 0x7D]" table_libs] t v by simp
qed

text \<open>
  C3 as stated fails: the document \<^verbatim>\<open>1\<close> is valid JSON, and the validator accepts it, but
  it does not start with \<^verbatim>\<open>[\<close> or \<^verbatim>\<open>{\<close>, so \<open>getValue\<close> never validates it and
  classifies it \<^verbatim>\<open>text\<close>.
\<close>

theorem getValue_json_scalar_counterexample:
  "[0x31] \<noteq> ([] :: byte list)
   \<and> fastjson_Validate table_libs [0x31]
   \<and> getValue table_libs [0x31]
       = (valueTypeText, \<lparr>emb_ValueType = valueTypeText, emb_Value = [0x31]\<rparr>)
   \<and> valueTypeText \<noteq> valueTypeJSON"
  by (simp add: getValue_def table_libs_def TrimLeft_def cutset_def Let_def
      valueTypeText_def valueTypeJSON_def)

text \<open>
  C7 (as amended).  For bytes that are not valid UTF-8 and that neither the JSON branch
  nor the XML branch takes, the result is \<^verbatim>\<open>binary\<close>, the embedding holds the base64
  encoding of the original bytes, and decoding the embedding gives the original bytes
  back.
\<close>

theorem getValue_binary_roundtrip:
  assumes "\<not> utf8_Valid value"
    and "\<not> ((TrimLeft value cutset ! 0 = 0x5B \<or> TrimLeft value cutset ! 0 = 0x7B)
            \<and> fastjson_Validate L (TrimLeft value cutset))"
    and "\<not> (TrimLeft value cutset ! 0 = 0x3C \<and> xj_Convert L (TrimLeft value cutset) \<noteq> None)"
  shows "getValue L value
           = (valueTypeBinary, \<lparr>emb_ValueType = valueTypeBinary, emb_Value = EncodeToString value\<rparr>)
         \<and> base64_decode (emb_Value (snd (getValue L value))) = Some value"
proof -
  from assms(1) have ne: "value \<noteq> []" by auto
  from assms(1) have tne: "TrimLeft value cutset \<noteq> []"
    using TrimLeft_empty_utf8 by blast
  have "getValue L value
           = (valueTypeBinary, \<lparr>emb_ValueType = valueTypeBinary, emb_Value = EncodeToString value\<rparr>)"
    using assms ne tne by (auto simp: getValue_def Let_def split: option.split)
  then show ?thesis by (simp add: base64_roundtrip)
qed

theorem getValue_binary_roundtrip_witness:
  "\<not> utf8_Valid [0xFF, 0xFE]
   \<and> getValue table_libs [0xFF, 0xFE]
       = (valueTypeBinary, \<lparr>emb_ValueType = valueTypeBinary, emb_Value = bytes_of ''//4=''\<rparr>)
   \<and> base64_decode (bytes_of ''//4='') = Some [0xFF, 0xFE]"
proof -
  have t: "TrimLeft [0xFF, 0xFE] cutset = [0xFF, 0xFE]"
    by (simp add: TrimLeft_def cutset_def)
  have u: "\<not> utf8_Valid [0xFF, 0xFE]"
    by (simp add: first_def)
  have e: "EncodeToString [0xFF, 0xFE] = bytes_of ''//4=''"
    by (simp add: encode_def encodeStd_def bytes_of_def StdPadding_def)
  have j: "\<not> ((TrimLeft [0xFF, 0xFE] cutset ! 0 = 0x5B \<or> TrimLeft [0xFF, 0xFE] cutset ! 0 = 0x7B)
              \<and> fastjson_Validate table_libs (TrimLeft [0xFF, 0xFE] cutset))"
    by (simp add: t)
  have x: "\<not> (TrimLeft [0xFF, 0xFE] cutset ! 0 = 0x3C
              \<and> xj_Convert table_libs (TrimLeft [0xFF, 0xFE] cutset) \<noteq> None)"
    by (simp add: t)
  note r = getValue_binary_roundtrip [OF u j x]
  from r have g: "getValue table_libs [0xFF, 0xFE]
       = (valueTypeBinary, \<lparr>emb_ValueType = valueTypeBinary, emb_Value = bytes_of ''//4=''\<rparr>)"
    unfolding e by (rule conjunct1)
  from r have "base64_decode (emb_Value (snd (getValue table_libs [0xFF, 0xFE]))) = Some [0xFF, 0xFE]"
    by (rule conjunct2)
  then have d: "base64_decode (bytes_of ''//4='') = Some [0xFF, 0xFE]"
    unfolding g by simp
  from u g d show ?thesis by (intro conjI)
qed

text \<open>
  C7 as stated fails: the bytes of \<^verbatim>\<open>["\xff"]\<close> are not valid UTF-8, yet they start with
  \<^verbatim>\<open>[\<close> and pass the validator, so the JSON branch, which comes first, classifies them
  \<^verbatim>\<open>json\<close> and stores them unencoded.
\<close>

theorem getValue_non_utf8_json_counterexample:
  "\<not> utf8_Valid [0x5B, 0x22, 0xFF, 0x22, 0x5D]
   \<and> getValue table_libs [0x5B, 0x22, 0xFF, 0x22, 0x5D]
       = (valueTypeJSON,
          \<lparr>emb_ValueType = valueTypeJSON, emb_Value = [0x5B, 0x22, 0xFF, 0x22, 0x5D]\<rparr>)
   \<and> valueTypeJSON \<noteq> valueTypeBinary"
  by (simp add: getValue_def table_libs_def TrimLeft_def cutset_def Let_def first_def
      valueTypeBinary_def valueTypeJSON_def)

section \<open>Evaluating concrete runs\<close>

lemmas fixture_defs = consumer_def request_def records_at_def record_at_def script_engine_def
  even_offsets_def table_libs_def truthy_def

lemmas run_defs = Run_def SetupInterpreter_def isMessageOK_def isMessageOk_def args_of_def
  topicMessage_def messageSize_def len_def slice_def Let_def

lemma getValue_k: "getValue L [0x6B] = (valueTypeText, \<lparr>emb_ValueType = valueTypeText, emb_Value = [0x6B]\<rparr>)"
  by (simp add: getValue_def TrimLeft_def cutset_def Let_def)

lemma getValue_v: "getValue L [0x76] = (valueTypeText, \<lparr>emb_ValueType = valueTypeText, emb_Value = [0x76]\<rparr>)"
  by (simp add: getValue_def TrimLeft_def cutset_def Let_def)

section \<open>Properties of the filter evaluation\<close>

text \<open>
  When the function sent over \<^verbatim>\<open>vm.Interrupt\<close> runs inside the call, the closure returns
  the timeout error, the loop reports the record's evaluation as failed, emits no message
  for it and returns.  (That the watchdog delivers the interrupt once 400 ms have passed,
  and only then, is a matter of the timer and of the goroutine's scheduling, which this
  development does not model.)
\<close>

lemma interrupt_is_fatal:
  assumes "Parse E (arg_Key (args_of L m)) = Inr key"
    and "Parse E (arg_Value (args_of L m)) = Inr value"
    and "Object_Call E (m_Partition m, m_Offset m, m_Timestamp m, key, value) vm = (Interrupted, vm')"
  shows "isMessageOk E vm (args_of L m) = (Returns (False, Some ErrTimeout), vm')
         \<and> loop L E req (Some vm) c (Recv m sc # evs)
           = ([OnMessageConsumed (messageSize m),
               OnError (FailedToCheckMessage (m_Partition m) (m_Offset m))],
              Some EvaluationError)"
proof -
  have "isMessageOk E vm (args_of L m) = (Returns (False, Some ErrTimeout), vm')"
    using assms by (simp add: isMessageOk_def args_of_def)
  then show ?thesis by (simp add: isMessageOK_def)
qed

lemma interrupted_run:
  "Run table_libs (script_engine never_returns truthy) (consumer ''while (true) {}'' (request 0 100 3))
     \<lparr>ConsumePartition = None, choices = records_at [7, 8]\<rparr>
   = ([OnMessageConsumed 2, OnError (FailedToCheckMessage 0 7), Close, DoneCh],
      Some EvaluationError)"
  by (simp add: run_defs fixture_defs never_returns_def getValue_k getValue_v)

text \<open>
  C4 (as amended).  When the engine's conversion of the script's return value to a
  boolean fails, the evaluation returns the error \<^verbatim>\<open>failed to cast return type to
  boolean\<close>, and the error ends the run of the loop: the record's bytes are reported, the
  failure is reported once through \<^verbatim>\<open>OnError\<close>, no message is sent for the record, and
  the loop returns whatever records are still to come.
\<close>

theorem cast_failure_is_fatal:
  assumes "Parse E (arg_Key (args_of L m)) = Inr key"
    and "Parse E (arg_Value (args_of L m)) = Inr value"
    and "Object_Call E (m_Partition m, m_Offset m, m_Timestamp m, key, value) vm = (Returned val, vm')"
    and "Value_ToBoolean E val = Inl err"
  shows "isMessageOk E vm (args_of L m) = (Returns (False, Some (FailedToCast err)), vm')
         \<and> loop L E req (Some vm) c (Recv m sc # evs)
           = ([OnMessageConsumed (messageSize m),
               OnError (FailedToCheckMessage (m_Partition m) (m_Offset m))],
              Some EvaluationError)"
proof -
  have "isMessageOk E vm (args_of L m) = (Returns (False, Some (FailedToCast err)), vm')"
    using assms by (simp add: isMessageOk_def args_of_def)
  then show ?thesis by (simp add: isMessageOK_def)
qed

theorem cast_failure_is_fatal_witness:
  "Value_ToBoolean (script_engine returns_one strict) (valueNumber 1) = Inl (LibError ''not a boolean'')
   \<and> isMessageOk (script_engine returns_one strict) 0 (args_of table_libs (record_at 7 [0x6B] [0x76]))
       = (Returns (False, Some (FailedToCast (LibError ''not a boolean''))), 1)
   \<and> loop table_libs (script_engine returns_one strict) (request 0 100 3) (Some 0) 0
          (Recv (record_at 7 [0x6B] [0x76]) ReceiverTakes # records_at [8])
       = ([OnMessageConsumed 2, OnError (FailedToCheckMessage 0 7)], Some EvaluationError)"
proof -
  let ?E = "script_engine returns_one strict"
  let ?m = "record_at 7 [0x6B] [0x76]"
  have p1: "Parse ?E (arg_Key (args_of table_libs ?m)) = Inr [0x6B]"
    by (simp add: script_engine_def args_of_def record_at_def slice_def getValue_k)
  have p2: "Parse ?E (arg_Value (args_of table_libs ?m)) = Inr [0x76]"
    by (simp add: script_engine_def args_of_def record_at_def slice_def getValue_v)
  have c: "Object_Call ?E (m_Partition ?m, m_Offset ?m, m_Timestamp ?m, [0x6B], [0x76]) 0
           = (Returned (valueNumber 1), 1)"
    by (simp add: script_engine_def returns_one_def)
  have b: "Value_ToBoolean ?E (valueNumber 1) = Inl (LibError ''not a boolean'')"
    by (simp add: script_engine_def strict_def)
  from cast_failure_is_fatal [OF p1 p2 c b, of "request 0 100 3" 0 ReceiverTakes "records_at [8]"] b
  show ?thesis
    by (simp add: messageSize_def len_def slice_def record_at_def)
qed

text \<open>
  C4 as stated fails: the code leaves the conversion to the engine's \<^verbatim>\<open>ToBoolean\<close>,
  which coerces by JavaScript truthiness.  A script returning the number 1 is no
  evaluation error: the record is accepted and its message is sent.
\<close>

theorem non_boolean_return_counterexample:
  "Object_Call (script_engine returns_one truthy) (0, 7, Time 0 0, [0x6B], [0x76]) 0
     = (Returned (valueNumber 1), 1)
   \<and> isMessageOk (script_engine returns_one truthy) 0 (args_of table_libs (record_at 7 [0x6B] [0x76]))
     = (Returns (True, None), 1)
   \<and> Run table_libs (script_engine returns_one truthy) (consumer ''return 1'' (request 0 100 3))
        \<lparr>ConsumePartition = None, choices = records_at [7] @ [CtxDone]\<rparr>
     = ([OnMessageConsumed 2, MessageCh (topicMessage table_libs (record_at 7 [0x6B] [0x76])),
         Close, DoneCh],
        Some Cancelled)"
  by (simp add: run_defs fixture_defs returns_one_def getValue_k getValue_v)

section \<open>Properties of the consumption loop\<close>

subsection \<open>One step of the loop\<close>

lemma sent_append: "sent (a @ b) = sent a @ sent b"
  by (induction a rule: sent.induct) simp_all

lemma tm_Offset_topicMessage: "tm_Offset (topicMessage L m) = m_Offset m"
  by (simp add: topicMessage_def Let_def split: prod.split)

lemma loop_Recv_step:
  obtains (stop) out ex where
      "loop L E req f c (Recv m sc # evs) = (out, Some ex)"
      "set out \<subseteq> {OnMessageConsumed (messageSize m),
                    OnError (FailedToCheckMessage (m_Partition m) (m_Offset m)),
                    MessageCh (topicMessage L m)}"
      "subseq (sent out) [topicMessage L m]"
  | (continue) out f' c' where
      "loop L E req f c (Recv m sc # evs)
       = (out @ fst (loop L E req f' c' evs), snd (loop L E req f' c' evs))"
      "set out \<subseteq> {OnMessageConsumed (messageSize m), MessageCh (topicMessage L m)}"
      "subseq (sent out) [topicMessage L m]"
proof -
  obtain r f' where r: "isMessageOK E f (args_of L m) = (r, f')"
    by (cases "isMessageOK E f (args_of L m)")
  show thesis
  proof (cases r)
    case Panics
    with r have "loop L E req f c (Recv m sc # evs)
                 = ([OnMessageConsumed (messageSize m)], Some EvaluationPanic)"
      by simp
    then show thesis by (rule stop) simp_all
  next
    case (Returns res)
    obtain isOK err where res: "res = (isOK, err)" by (cases res)
    show thesis
    proof (cases err)
      case (Some e)
      with r Returns res have "loop L E req f c (Recv m sc # evs)
            = ([OnMessageConsumed (messageSize m),
                OnError (FailedToCheckMessage (m_Partition m) (m_Offset m))],
               Some EvaluationError)"
        by simp
      then show thesis by (rule stop) simp_all
    next
      case None
      let ?c' = "if isOK then c + 1 else c"
      let ?out = "OnMessageConsumed (messageSize m)
                  # (if isOK then [MessageCh (topicMessage L m)] else [])"
      consider (cancel) "isOK" "sc = CtxDoneFirst"
        | (bounds) "\<not> (isOK \<and> sc = CtxDoneFirst)"
            "sint (req_EndOffset req) \<le> sint (m_Offset m) \<or> ?c' = req_MaxMessageCount req"
        | (go) "\<not> (isOK \<and> sc = CtxDoneFirst)"
            "\<not> (sint (req_EndOffset req) \<le> sint (m_Offset m) \<or> ?c' = req_MaxMessageCount req)"
        by blast
      then show thesis
      proof cases
        case cancel
        with r Returns res None have "loop L E req f c (Recv m sc # evs)
              = ([OnMessageConsumed (messageSize m)], Some SendCancelled)"
          by simp
        then show thesis by (rule stop) simp_all
      next
        case bounds
        with r Returns res None have "loop L E req f c (Recv m sc # evs)
              = (?out, Some BoundsReached)"
          by (simp add: Let_def)
        then show thesis by (rule stop) auto
      next
        case go
        with r Returns res None have "loop L E req f c (Recv m sc # evs)
              = (?out @ fst (loop L E req f' ?c' evs), snd (loop L E req f' ?c' evs))"
          by (simp add: Let_def split: prod.split)
        then show thesis by (rule continue) auto
      qed
    qed
  qed
qed

lemma loop_accepting_step:
  assumes "isMessageOK E f (args_of L m) = (Returns (ok, None), f')"
  shows "loop L E req f c (Recv m ReceiverTakes # evs)
         = (let c' = (if ok then c + 1 else c);
                out = OnMessageConsumed (messageSize m)
                      # (if ok then [MessageCh (topicMessage L m)] else [])
            in if sint (req_EndOffset req) \<le> sint (m_Offset m) \<or> c' = req_MaxMessageCount req
               then (out, Some BoundsReached)
               else (out @ fst (loop L E req f' c' evs), snd (loop L E req f' c' evs)))"
  using assms by (simp add: Let_def split: prod.split)

subsection \<open>Order of the messages sent\<close>

lemma loop_sent_subseq:
  "subseq (sent (fst (loop L E req f c evs))) (map (topicMessage L) (delivered evs))"
proof (induction evs arbitrary: f c)
  case Nil
  then show ?case by simp
next
  case (Cons ev evs)
  show ?case
  proof (cases ev)
    case (Recv m sc)
    show ?thesis
    proof (cases rule: loop_Recv_step [of L E req f c m sc evs])
      case (stop out ex)
      from stop(3) have "subseq (sent out @ []) ([topicMessage L m] @ map (topicMessage L) (delivered evs))"
        by (intro list_emb_append_mono) simp_all
      with stop(1) Recv show ?thesis by simp
    next
      case (continue out f' c')
      from continue(3) Cons.IH [of f' c']
      have "subseq (sent out @ sent (fst (loop L E req f' c' evs)))
                   ([topicMessage L m] @ map (topicMessage L) (delivered evs))"
        by (intro list_emb_append_mono)
      with continue(1) Recv show ?thesis by (simp add: sent_append)
    qed
  qed simp_all
qed

lemma sent_Run_subseq:
  "subseq (sent (fst (Run L E p env))) (map (topicMessage L) (delivered (choices env)))"
proof (cases "ConsumePartition env")
  case (Some err)
  then show ?thesis by (simp add: Run_def)
next
  case None
  show ?thesis
  proof (cases "SetupInterpreter E p")
    case (Inl err)
    with None show ?thesis by (simp add: Run_def)
  next
    case (Inr f)
    obtain t ex where l: "loop L E (Req p) f 0 (choices env) = (t, ex)"
      by (cases "loop L E (Req p) f 0 (choices env)")
    from loop_sent_subseq [of L E "Req p" f 0 "choices env"] l
    have "subseq (sent t) (map (topicMessage L) (delivered (choices env)))" by simp
    with None Inr l show ?thesis
      by (cases ex) (simp_all add: Run_def sent_append)
  qed
qed

lemma sorted_wrt_subseq:
  "subseq xs ys \<Longrightarrow> sorted_wrt P ys \<Longrightarrow> sorted_wrt P xs"
proof (induction xs ys rule: list_emb.induct)
  case (list_emb_Nil ys)
  then show ?case by simp
next
  case (list_emb_Cons xs ys y)
  then show ?case by simp
next
  case (list_emb_Cons2 x y xs ys)
  then have "set xs \<subseteq> set ys" by (auto dest: list_emb_set)
  with list_emb_Cons2 show ?case by auto
qed

text \<open>
  C9.  When the broker delivers the records in increasing offset order, the messages sent
  on \<^verbatim>\<open>MessageCh\<close> are in strictly increasing offset order; and whatever the order of
  delivery, the messages sent are a subsequence of the delivered records' messages, in the
  order of delivery: nothing is reordered, held back for sorting or sent twice.  (Should
  the broker repeat an offset, the order of the messages sent is still non-decreasing.)
\<close>

theorem Run_sent_in_offset_order:
  assumes "sorted_wrt (\<lambda>a b. sint a < sint b) (map m_Offset (delivered (choices env)))"
  shows "sorted_wrt (\<lambda>a b. sint a < sint b) (map tm_Offset (sent (fst (Run L E p env))))
         \<and> subseq (sent (fst (Run L E p env))) (map (topicMessage L) (delivered (choices env)))
         \<and> (sorted_wrt (\<lambda>a b. sint a \<le> sint b) (map m_Offset (delivered (choices env))) \<longrightarrow>
              sorted_wrt (\<lambda>a b. sint a \<le> sint b) (map tm_Offset (sent (fst (Run L E p env)))))"
proof -
  have s: "subseq (sent (fst (Run L E p env))) (map (topicMessage L) (delivered (choices env)))"
    by (rule sent_Run_subseq)
  then have "subseq (map tm_Offset (sent (fst (Run L E p env))))
                    (map tm_Offset (map (topicMessage L) (delivered (choices env))))"
    by (rule subseq_map)
  then have "subseq (map tm_Offset (sent (fst (Run L E p env))))
                    (map m_Offset (delivered (choices env)))"
    by (simp add: tm_Offset_topicMessage comp_def)
  from sorted_wrt_subseq [OF this assms] sorted_wrt_subseq [OF this] s show ?thesis by blast
qed

theorem Run_sent_in_offset_order_witness:
  "sorted_wrt (\<lambda>a b. sint a < sint b)
     (map m_Offset (delivered (records_at [10, 11, 12, 13, 14, 15])))
   \<and> map tm_Offset (sent (fst (Run table_libs (script_engine even_offsets truthy)
              (consumer ''return offset % 2 == 0'' (request 10 15 100))
              \<lparr>ConsumePartition = None, choices = records_at [10, 11, 12, 13, 14, 15]\<rparr>)))
     = [10, 12, 14]
   \<and> sorted_wrt (\<lambda>a b. sint a < sint b) [10, 12, 14 :: int64]"
proof -
  let ?env = "\<lparr>ConsumePartition = None, choices = records_at [10, 11, 12, 13, 14, 15]\<rparr>"
  have h: "sorted_wrt (\<lambda>a b. sint a < sint b) (map m_Offset (delivered (choices ?env)))"
    by (simp add: fixture_defs)
  have e: "map tm_Offset (sent (fst (Run table_libs (script_engine even_offsets truthy)
              (consumer ''return offset % 2 == 0'' (request 10 15 100)) ?env)))
           = [10, 12, 14]"
    by (simp add: run_defs fixture_defs getValue_k getValue_v)
  from Run_sent_in_offset_order [OF h, of table_libs "script_engine even_offsets truthy"
      "consumer ''return offset % 2 == 0'' (request 10 15 100)"]
  have "sorted_wrt (\<lambda>a b. sint a < sint b) [10, 12, 14 :: int64]"
    unfolding e by (rule conjunct1)
  with h e show ?thesis by simp
qed

subsection \<open>The completion signal\<close>

lemma loop_no_DoneCh: "DoneCh \<notin> set (fst (loop L E req f c evs))"
proof (induction evs arbitrary: f c)
  case Nil
  then show ?case by simp
next
  case (Cons ev evs)
  show ?case
  proof (cases ev)
    case (Recv m sc)
    show ?thesis
    proof (cases rule: loop_Recv_step [of L E req f c m sc evs])
      case (stop out ex)
      then show ?thesis using Recv by auto
    next
      case (continue out f' c')
      then show ?thesis using Recv Cons.IH [of f' c'] by auto
    qed
  qed simp_all
qed

text \<open>
  C5.  A run that returns, by whichever \<^verbatim>\<open>return\<close> (or by a panic of the evaluation),
  sends on \<^verbatim>\<open>DoneCh\<close> exactly once, as its last effect; a run still blocked in the loop
  has not sent on it.
\<close>

theorem Run_signals_done_once:
  "(snd (Run L E p env) = None \<longrightarrow> count_list (fst (Run L E p env)) DoneCh = 0)
   \<and> (snd (Run L E p env) \<noteq> None \<longrightarrow>
        count_list (fst (Run L E p env)) DoneCh = 1 \<and> last (fst (Run L E p env)) = DoneCh)"
proof (cases "ConsumePartition env")
  case (Some err)
  then show ?thesis by (simp add: Run_def)
next
  case None
  show ?thesis
  proof (cases "SetupInterpreter E p")
    case (Inl err)
    with None show ?thesis by (simp add: Run_def)
  next
    case (Inr f)
    obtain t ex where l: "loop L E (Req p) f 0 (choices env) = (t, ex)"
      by (cases "loop L E (Req p) f 0 (choices env)")
    from loop_no_DoneCh [of L E "Req p" f 0 "choices env"] l
    have "count_list t DoneCh = 0" by simp
    with None Inr l show ?thesis
      by (cases ex) (simp_all add: Run_def)
  qed
qed

theorem Run_signals_done_once_witness:
  "(snd (Run table_libs (script_engine even_offsets truthy) (consumer [] (request 0 100 3))
          \<lparr>ConsumePartition = Some (LibError ''leader not available''), choices = []\<rparr>)
      = Some OpenFailed
    \<and> count_list (fst (Run table_libs (script_engine even_offsets truthy) (consumer [] (request 0 100 3))
          \<lparr>ConsumePartition = Some (LibError ''leader not available''), choices = []\<rparr>)) DoneCh = 1)
   \<and> (snd (Run table_libs broken_engine (consumer ''return ('' (request 0 100 3))
          \<lparr>ConsumePartition = None, choices = records_at [0]\<rparr>)
      = Some SetupFailed
    \<and> count_list (fst (Run table_libs broken_engine (consumer ''return ('' (request 0 100 3))
          \<lparr>ConsumePartition = None, choices = records_at [0]\<rparr>)) DoneCh = 1)
   \<and> (snd (Run table_libs (script_engine even_offsets truthy) (consumer [] (request 0 100 3))
          \<lparr>ConsumePartition = None, choices = records_at [0] @ [ChannelClosed]\<rparr>)
      = Some UpstreamClosed
    \<and> count_list (fst (Run table_libs (script_engine even_offsets truthy) (consumer [] (request 0 100 3))
          \<lparr>ConsumePartition = None, choices = records_at [0] @ [ChannelClosed]\<rparr>)) DoneCh = 1)
   \<and> (snd (Run table_libs (script_engine throws truthy) (consumer ''return x'' (request 0 100 3))
          \<lparr>ConsumePartition = None, choices = records_at [0]\<rparr>)
      = Some EvaluationError
    \<and> count_list (fst (Run table_libs (script_engine throws truthy) (consumer ''return x'' (request 0 100 3))
          \<lparr>ConsumePartition = None, choices = records_at [0]\<rparr>)) DoneCh = 1)
   \<and> (snd (Run table_libs (script_engine even_offsets truthy) (consumer [] (request 0 1 3))
          \<lparr>ConsumePartition = None, choices = records_at [0, 1, 2]\<rparr>)
      = Some BoundsReached
    \<and> count_list (fst (Run table_libs (script_engine even_offsets truthy) (consumer [] (request 0 1 3))
          \<lparr>ConsumePartition = None, choices = records_at [0, 1, 2]\<rparr>)) DoneCh = 1)
   \<and> (snd (Run table_libs (script_engine even_offsets truthy) (consumer [] (request 0 100 3))
          \<lparr>ConsumePartition = None, choices = records_at [0] @ [CtxDone]\<rparr>)
      = Some Cancelled
    \<and> count_list (fst (Run table_libs (script_engine even_offsets truthy) (consumer [] (request 0 100 3))
          \<lparr>ConsumePartition = None, choices = records_at [0] @ [CtxDone]\<rparr>)) DoneCh = 1)
   \<and> (snd (Run table_libs (script_engine even_offsets truthy) (consumer [] (request 0 100 3))
          \<lparr>ConsumePartition = None,
             choices = [Recv (record_at 0 [0x6B] [0x76]) CtxDoneFirst]\<rparr>)
      = Some SendCancelled
    \<and> count_list (fst (Run table_libs (script_engine even_offsets truthy) (consumer [] (request 0 100 3))
          \<lparr>ConsumePartition = None,
             choices = [Recv (record_at 0 [0x6B] [0x76]) CtxDoneFirst]\<rparr>)) DoneCh = 1)
   \<and> (snd (Run table_libs (script_engine panics truthy) (consumer ''return x'' (request 0 100 3))
          \<lparr>ConsumePartition = None, choices = records_at [0]\<rparr>)
      = Some EvaluationPanic
    \<and> count_list (fst (Run table_libs (script_engine panics truthy) (consumer ''return x'' (request 0 100 3))
          \<lparr>ConsumePartition = None, choices = records_at [0]\<rparr>)) DoneCh = 1)
   \<and> (snd (Run table_libs (script_engine even_offsets truthy) (consumer [] (request 0 100 3))
          \<lparr>ConsumePartition = None, choices = records_at [0]\<rparr>)
      = None
    \<and> count_list (fst (Run table_libs (script_engine even_offsets truthy) (consumer [] (request 0 100 3))
          \<lparr>ConsumePartition = None, choices = records_at [0]\<rparr>)) DoneCh = 0)"
proof -
  note defs = run_defs fixture_defs throws_def panics_def broken_engine_def getValue_k getValue_v
  let ?L = "table_libs"
  let ?E = "script_engine even_offsets truthy"
  let ?p = "consumer [] (request 0 100 3)"
  have o: "snd (Run ?L ?E ?p \<lparr>ConsumePartition = Some (LibError ''leader not available''), choices = []\<rparr>)
           = Some OpenFailed"
    by (simp add: Run_def)
  have s: "snd (Run ?L broken_engine (consumer ''return ('' (request 0 100 3))
                 \<lparr>ConsumePartition = None, choices = records_at [0]\<rparr>) = Some SetupFailed"
    by (simp add: defs)
  have u: "snd (Run ?L ?E ?p \<lparr>ConsumePartition = None, choices = records_at [0] @ [ChannelClosed]\<rparr>)
           = Some UpstreamClosed"
    by (simp add: defs)
  have e: "snd (Run ?L (script_engine throws truthy) (consumer ''return x'' (request 0 100 3))
                 \<lparr>ConsumePartition = None, choices = records_at [0]\<rparr>) = Some EvaluationError"
    by (simp add: defs)
  have b: "snd (Run ?L ?E (consumer [] (request 0 1 3))
                 \<lparr>ConsumePartition = None, choices = records_at [0, 1, 2]\<rparr>) = Some BoundsReached"
    by (simp add: defs)
  have c: "snd (Run ?L ?E ?p \<lparr>ConsumePartition = None, choices = records_at [0] @ [CtxDone]\<rparr>)
           = Some Cancelled"
    by (simp add: defs)
  have d: "snd (Run ?L ?E ?p \<lparr>ConsumePartition = None,
                 choices = [Recv (record_at 0 [0x6B] [0x76]) CtxDoneFirst]\<rparr>) = Some SendCancelled"
    by (simp add: defs)
  have w: "snd (Run ?L ?E ?p \<lparr>ConsumePartition = None, choices = records_at [0]\<rparr>) = None"
    by (simp add: defs)
  have x: "snd (Run ?L (script_engine panics truthy) (consumer ''return x'' (request 0 100 3))
                 \<lparr>ConsumePartition = None, choices = records_at [0]\<rparr>) = Some EvaluationPanic"
    by (simp add: defs)
  note t = Run_signals_done_once
  from t [of ?L "script_engine panics truthy" "consumer ''return x'' (request 0 100 3)"
             "\<lparr>ConsumePartition = None, choices = records_at [0]\<rparr>"] x
  have x': "count_list (fst (Run ?L (script_engine panics truthy) (consumer ''return x'' (request 0 100 3))
                 \<lparr>ConsumePartition = None, choices = records_at [0]\<rparr>)) DoneCh = 1"
    by simp
  from t [of ?L ?E ?p "\<lparr>ConsumePartition = Some (LibError ''leader not available''), choices = []\<rparr>"] o
  have o': "count_list (fst (Run ?L ?E ?p
              \<lparr>ConsumePartition = Some (LibError ''leader not available''), choices = []\<rparr>)) DoneCh = 1"
    by simp
  from t [of ?L broken_engine "consumer ''return ('' (request 0 100 3)"
             "\<lparr>ConsumePartition = None, choices = records_at [0]\<rparr>"] s
  have s': "count_list (fst (Run ?L broken_engine (consumer ''return ('' (request 0 100 3))
                 \<lparr>ConsumePartition = None, choices = records_at [0]\<rparr>)) DoneCh = 1"
    by simp
  from t [of ?L ?E ?p "\<lparr>ConsumePartition = None, choices = records_at [0] @ [ChannelClosed]\<rparr>"] u
  have u': "count_list (fst (Run ?L ?E ?p
              \<lparr>ConsumePartition = None, choices = records_at [0] @ [ChannelClosed]\<rparr>)) DoneCh = 1"
    by simp
  from t [of ?L "script_engine throws truthy" "consumer ''return x'' (request 0 100 3)"
             "\<lparr>ConsumePartition = None, choices = records_at [0]\<rparr>"] e
  have e': "count_list (fst (Run ?L (script_engine throws truthy) (consumer ''return x'' (request 0 100 3))
                 \<lparr>ConsumePartition = None, choices = records_at [0]\<rparr>)) DoneCh = 1"
    by simp
  from t [of ?L ?E "consumer [] (request 0 1 3)"
             "\<lparr>ConsumePartition = None, choices = records_at [0, 1, 2]\<rparr>"] b
  have b': "count_list (fst (Run ?L ?E (consumer [] (request 0 1 3))
                 \<lparr>ConsumePartition = None, choices = records_at [0, 1, 2]\<rparr>)) DoneCh = 1"
    by simp
  from t [of ?L ?E ?p "\<lparr>ConsumePartition = None, choices = records_at [0] @ [CtxDone]\<rparr>"] c
  have c': "count_list (fst (Run ?L ?E ?p
              \<lparr>ConsumePartition = None, choices = records_at [0] @ [CtxDone]\<rparr>)) DoneCh = 1"
    by simp
  from t [of ?L ?E ?p "\<lparr>ConsumePartition = None,
                 choices = [Recv (record_at 0 [0x6B] [0x76]) CtxDoneFirst]\<rparr>"] d
  have d': "count_list (fst (Run ?L ?E ?p \<lparr>ConsumePartition = None,
                 choices = [Recv (record_at 0 [0x6B] [0x76]) CtxDoneFirst]\<rparr>)) DoneCh = 1"
    by simp
  from t [of ?L ?E ?p "\<lparr>ConsumePartition = None, choices = records_at [0]\<rparr>"] w
  have w': "count_list (fst (Run ?L ?E ?p \<lparr>ConsumePartition = None, choices = records_at [0]\<rparr>)) DoneCh = 0"
    by simp
  from o o' s s' u u' e e' b b' c c' d d' x x' w w' show ?thesis by (intro conjI)
qed

subsection \<open>Sizes\<close>

text \<open>
  C10.  The \<^verbatim>\<open>Size\<close> of the message built for a record is the length of its value alone;
  the byte count reported to the progress sink for the same record, first of the record's
  effects, is the length of the key plus the length of the value; for an accepted record
  the message follows that report; and the two numbers differ whenever the key is not
  empty.
\<close>

theorem size_excludes_key:
  "tm_Size (topicMessage L m) = int (length (slice (m_Value m)))
   \<and> (\<exists>t. fst (loop L E req f c (Recv m sc # evs))
            = OnMessageConsumed (int (length (slice (m_Key m))) + int (length (slice (m_Value m))))
              # t)
   \<and> (fst (isMessageOK E f (args_of L m)) = Returns (True, None) \<and> sc = ReceiverTakes \<longrightarrow>
        take 2 (fst (loop L E req f c (Recv m sc # evs)))
        = [OnMessageConsumed (int (length (slice (m_Key m))) + int (length (slice (m_Value m)))),
           MessageCh (topicMessage L m)])
   \<and> (slice (m_Key m) \<noteq> [] \<longrightarrow>
        tm_Size (topicMessage L m)
        \<noteq> int (length (slice (m_Key m))) + int (length (slice (m_Value m))))"
proof -
  have a: "tm_Size (topicMessage L m) = int (length (slice (m_Value m)))"
    by (simp add: topicMessage_def len_def Let_def split: prod.split)
  have b: "\<exists>t. fst (loop L E req f c (Recv m sc # evs))
            = OnMessageConsumed (int (length (slice (m_Key m))) + int (length (slice (m_Value m))))
              # t"
    by (simp add: messageSize_def len_def Let_def
        split: prod.split completion.split option.split)
  have c: "take 2 (fst (loop L E req f c (Recv m sc # evs)))
        = [OnMessageConsumed (int (length (slice (m_Key m))) + int (length (slice (m_Value m)))),
           MessageCh (topicMessage L m)]"
    if "fst (isMessageOK E f (args_of L m)) = Returns (True, None)" "sc = ReceiverTakes"
    using that
    by (cases "isMessageOK E f (args_of L m)")
       (simp add: messageSize_def len_def Let_def split: prod.split)
  from a b c show ?thesis by simp
qed

theorem size_excludes_key_witness:
  "tm_Size (topicMessage table_libs (record_at 7 [0x6B, 0x6B] [0x76])) = 1
   \<and> take 2 (fst (loop table_libs (script_engine even_offsets truthy) (request 0 100 3) None 0
                   (Recv (record_at 7 [0x6B, 0x6B] [0x76]) ReceiverTakes # [])))
     = [OnMessageConsumed 3, MessageCh (topicMessage table_libs (record_at 7 [0x6B, 0x6B] [0x76]))]
   \<and> slice (m_Key (record_at 7 [0x6B, 0x6B] [0x76])) \<noteq> []"
  using size_excludes_key [of table_libs "record_at 7 [0x6B, 0x6B] [0x76]"
      "script_engine even_offsets truthy" "request 0 100 3" None 0 ReceiverTakes "[]"]
  by (simp add: record_at_def slice_def isMessageOK_def)

subsection \<open>Where the loop stops\<close>

lemma accepted_count_Cons:
  "accepted_count (ok # oks) = (if ok then 1 else 0) + accepted_count oks"
  by (simp add: accepted_count_def)

lemma filter_all_Cons_verdicts:
  assumes "filter_all L E f (m # ms) = map (\<lambda>b. Returns (b, None)) oks"
  obtains ok oks' f' where "oks = ok # oks'"
    and "isMessageOK E f (args_of L m) = (Returns (ok, None), f')"
    and "filter_all L E f' ms = map (\<lambda>b. Returns (b, None)) oks'"
proof -
  obtain r f' where r: "isMessageOK E f (args_of L m) = (r, f')"
    by (cases "isMessageOK E f (args_of L m)")
  with assms have eq: "r # filter_all L E f' ms = map (\<lambda>b. Returns (b, None)) oks" by simp
  then obtain ok oks' where oks: "oks = ok # oks'" by (cases oks) auto
  with eq have "r = Returns (ok, None)" "filter_all L E f' ms = map (\<lambda>b. Returns (b, None)) oks'"
    by simp_all
  with r oks that show thesis by blast
qed

lemma loop_stops_at_first_bound:
  assumes "filter_all L E f ms = map (\<lambda>b. Returns (b, None)) oks"
    and "k < length ms"
    and "sint (req_EndOffset req) \<le> sint (m_Offset (ms ! k))
         \<or> c + of_nat (accepted_count (take (Suc k) oks)) = req_MaxMessageCount req"
    and "\<forall>j<k. \<not> (sint (req_EndOffset req) \<le> sint (m_Offset (ms ! j))
                  \<or> c + of_nat (accepted_count (take (Suc j) oks)) = req_MaxMessageCount req)"
  shows "loop L E req f c (map (\<lambda>m. Recv m ReceiverTakes) ms @ rest)
         = (deliveries L (take (Suc k) ms) (take (Suc k) oks), Some BoundsReached)"
  using assms
proof (induction ms arbitrary: f c oks k)
  case Nil
  then show ?case by simp
next
  case (Cons m ms)
  from Cons.prems(1) obtain ok oks' f' where oks: "oks = ok # oks'"
    and r: "isMessageOK E f (args_of L m) = (Returns (ok, None), f')"
    and tl: "filter_all L E f' ms = map (\<lambda>b. Returns (b, None)) oks'"
    by (rule filter_all_Cons_verdicts)
  let ?c' = "if ok then c + 1 else c"
  have c': "c + of_nat (accepted_count (take (Suc j) oks)) = ?c' + of_nat (accepted_count (take j oks'))" for j
    by (simp add: oks accepted_count_Cons)
  show ?case
  proof (cases k)
    case 0
    with Cons.prems(3) c' [of 0]
    have "sint (req_EndOffset req) \<le> sint (m_Offset m) \<or> ?c' = req_MaxMessageCount req"
      by (simp add: accepted_count_def)
    with r 0 oks show ?thesis
      by (simp add: loop_accepting_step Let_def)
  next
    case (Suc k')
    from Cons.prems(4) Suc have "\<not> (sint (req_EndOffset req) \<le> sint (m_Offset ((m # ms) ! 0))
                  \<or> c + of_nat (accepted_count (take (Suc 0) oks)) = req_MaxMessageCount req)"
      by blast
    with c' [of 0] have go: "\<not> (sint (req_EndOffset req) \<le> sint (m_Offset m)
                               \<or> ?c' = req_MaxMessageCount req)"
      by (simp add: accepted_count_def)
    have k': "k' < length ms" using Cons.prems(2) Suc by simp
    have stop: "sint (req_EndOffset req) \<le> sint (m_Offset (ms ! k'))
         \<or> ?c' + of_nat (accepted_count (take (Suc k') oks')) = req_MaxMessageCount req"
      using Cons.prems(3) Suc c' [of "Suc k'"] by simp
    have before: "\<forall>j<k'. \<not> (sint (req_EndOffset req) \<le> sint (m_Offset (ms ! j))
                  \<or> ?c' + of_nat (accepted_count (take (Suc j) oks')) = req_MaxMessageCount req)"
    proof (intro allI impI)
      fix j assume "j < k'"
      then have "Suc j < k" using Suc by simp
      with Cons.prems(4) have "\<not> (sint (req_EndOffset req) \<le> sint (m_Offset ((m # ms) ! Suc j))
                  \<or> c + of_nat (accepted_count (take (Suc (Suc j)) oks)) = req_MaxMessageCount req)"
        by blast
      with c' [of "Suc j"] show "\<not> (sint (req_EndOffset req) \<le> sint (m_Offset (ms ! j))
                  \<or> ?c' + of_nat (accepted_count (take (Suc j) oks')) = req_MaxMessageCount req)"
        by simp
    qed
    from Cons.IH [OF tl k' stop before]
    have "loop L E req f' ?c' (map (\<lambda>m. Recv m ReceiverTakes) ms @ rest)
          = (deliveries L (take (Suc k') ms) (take (Suc k') oks'), Some BoundsReached)" .
    with r go Suc oks show ?thesis
      by (simp add: loop_accepting_step Let_def)
  qed
qed

lemma loop_goes_on_without_bound:
  assumes "filter_all L E f ms = map (\<lambda>b. Returns (b, None)) oks"
    and "\<forall>j<length ms. \<not> (sint (req_EndOffset req) \<le> sint (m_Offset (ms ! j))
                  \<or> c + of_nat (accepted_count (take (Suc j) oks)) = req_MaxMessageCount req)"
  shows "\<exists>f'. loop L E req f c (map (\<lambda>m. Recv m ReceiverTakes) ms @ rest)
              = (deliveries L ms oks @ fst (loop L E req f' (c + of_nat (accepted_count oks)) rest),
                 snd (loop L E req f' (c + of_nat (accepted_count oks)) rest))"
  using assms
proof (induction ms arbitrary: f c oks)
  case Nil
  then show ?case by (auto simp: accepted_count_def)
next
  case (Cons m ms)
  from Cons.prems(1) obtain ok oks' f' where oks: "oks = ok # oks'"
    and r: "isMessageOK E f (args_of L m) = (Returns (ok, None), f')"
    and tl: "filter_all L E f' ms = map (\<lambda>b. Returns (b, None)) oks'"
    by (rule filter_all_Cons_verdicts)
  let ?c' = "if ok then c + 1 else c"
  have c': "c + of_nat (accepted_count (take (Suc j) oks)) = ?c' + of_nat (accepted_count (take j oks'))" for j
    by (simp add: oks accepted_count_Cons)
  have total: "c + of_nat (accepted_count oks) = ?c' + of_nat (accepted_count oks')"
    by (simp add: oks accepted_count_Cons)
  from Cons.prems(2) have "\<not> (sint (req_EndOffset req) \<le> sint (m_Offset ((m # ms) ! 0))
                  \<or> c + of_nat (accepted_count (take (Suc 0) oks)) = req_MaxMessageCount req)"
    by (metis length_Cons zero_less_Suc)
  with c' [of 0] have go: "\<not> (sint (req_EndOffset req) \<le> sint (m_Offset m)
                             \<or> ?c' = req_MaxMessageCount req)"
    by (simp add: accepted_count_def)
  have before: "\<forall>j<length ms. \<not> (sint (req_EndOffset req) \<le> sint (m_Offset (ms ! j))
                  \<or> ?c' + of_nat (accepted_count (take (Suc j) oks')) = req_MaxMessageCount req)"
  proof (intro allI impI)
    fix j assume "j < length ms"
    then have "Suc j < length (m # ms)" by simp
    with Cons.prems(2) have "\<not> (sint (req_EndOffset req) \<le> sint (m_Offset ((m # ms) ! Suc j))
                  \<or> c + of_nat (accepted_count (take (Suc (Suc j)) oks)) = req_MaxMessageCount req)"
      by blast
    with c' [of "Suc j"] show "\<not> (sint (req_EndOffset req) \<le> sint (m_Offset (ms ! j))
                  \<or> ?c' + of_nat (accepted_count (take (Suc j) oks')) = req_MaxMessageCount req)"
      by simp
  qed
  from Cons.IH [OF tl before] obtain f'' where
    ih: "loop L E req f' ?c' (map (\<lambda>m. Recv m ReceiverTakes) ms @ rest)
         = (deliveries L ms oks' @ fst (loop L E req f'' (?c' + of_nat (accepted_count oks')) rest),
            snd (loop L E req f'' (?c' + of_nat (accepted_count oks')) rest))"
    by blast
  have "loop L E req f c (map (\<lambda>m. Recv m ReceiverTakes) (m # ms) @ rest)
        = (deliveries L (m # ms) oks @ fst (loop L E req f'' (c + of_nat (accepted_count oks)) rest),
           snd (loop L E req f'' (c + of_nat (accepted_count oks)) rest))"
    unfolding total using r go oks ih by (simp add: loop_accepting_step Let_def)
  then show ?case by blast
qed

lemma accepted_count_all:
  "\<forall>ok \<in> set oks. ok \<Longrightarrow> accepted_count (take n oks) = min n (length oks)"
proof -
  assume a: "\<forall>ok \<in> set oks. ok"
  have "\<forall>ok \<in> set (take n oks). ok" using a by (auto dest: in_set_takeD)
  then have "filter (\<lambda>ok. ok) (take n oks) = take n oks" by (simp add: filter_id_conv)
  then show ?thesis by (simp add: accepted_count_def min.commute)
qed

lemma sent_deliveries_all:
  "length oks = length ms \<Longrightarrow> \<forall>ok \<in> set oks. ok
   \<Longrightarrow> sent (deliveries L ms oks) = map (topicMessage L) ms"
  by (induction L ms oks rule: deliveries.induct) auto

lemma length_filter_all: "length (filter_all L E f ms) = length ms"
  by (induction ms arbitrary: f) (simp_all split: prod.split)

text \<open>
  C1.  For every request and every sequence of delivered records \<open>ms\<close> on which the
  filter evaluates without error (each accepted message being taken by the receiver),
  whatever the environment offers after them: if \<open>k\<close> is the first position at which
  the stop condition holds once the record is processed (its offset has reached
  \<^verbatim>\<open>endOffset\<close>, or the accepted count equals \<^verbatim>\<open>maxMessageCount\<close>), the run processes
  exactly the records up to \<open>k\<close>, accepted or not, and returns there; if the condition
  holds at no position, every record of \<open>ms\<close> is processed and the loop goes on (it is
  still waiting when nothing follows).  In particular, with \<^verbatim>\<open>maxMessageCount = 3\<close> and
  10 records that all pass the filter, the first three below \<^verbatim>\<open>endOffset\<close>, exactly the
  first 3 messages are sent and the run returns.
\<close>

theorem Run_stops_at_first_bound:
  assumes "ConsumePartition env = None"
    and "SetupInterpreter E p = Inr f"
    and "choices env = map (\<lambda>m. Recv m ReceiverTakes) ms @ rest"
    and "filter_all L E f ms = map (\<lambda>b. Returns (b, None)) oks"
  shows "(\<forall>k<length ms.
            stop_after (Req p) ms oks k \<and> (\<forall>j<k. \<not> stop_after (Req p) ms oks j) \<longrightarrow>
            Run L E p env
            = (deliveries L (take (Suc k) ms) (take (Suc k) oks) @ [Close, DoneCh],
               Some BoundsReached))
         \<and> ((\<forall>j<length ms. \<not> stop_after (Req p) ms oks j) \<longrightarrow>
              prefix (deliveries L ms oks) (fst (Run L E p env))
              \<and> (rest = [] \<longrightarrow> Run L E p env = (deliveries L ms oks, None)))
         \<and> (length ms = 10 \<and> (\<forall>ok \<in> set oks. ok) \<and> req_MaxMessageCount (Req p) = 3
              \<and> (\<forall>j<3. sint (m_Offset (ms ! j)) < sint (req_EndOffset (Req p))) \<longrightarrow>
              sent (fst (Run L E p env)) = map (topicMessage L) (take 3 ms)
              \<and> length (sent (fst (Run L E p env))) = 3
              \<and> snd (Run L E p env) = Some BoundsReached)"
proof -
  let ?evs = "map (\<lambda>m. Recv m ReceiverTakes) ms @ rest"
  have run: "Run L E p env
             = (case loop L E (Req p) f 0 ?evs of
                  (t, None) \<Rightarrow> (t, None)
                | (t, Some ex) \<Rightarrow> (t @ [Close, DoneCh], Some ex))"
    using assms(1-3) by (simp add: Run_def)
  have stops: "Run L E p env
               = (deliveries L (take (Suc k) ms) (take (Suc k) oks) @ [Close, DoneCh],
                  Some BoundsReached)"
    if "k < length ms" "stop_after (Req p) ms oks k" "\<forall>j<k. \<not> stop_after (Req p) ms oks j" for k
  proof -
    have "loop L E (Req p) f 0 ?evs
          = (deliveries L (take (Suc k) ms) (take (Suc k) oks), Some BoundsReached)"
      using assms(4) that by (intro loop_stops_at_first_bound) (simp_all add: stop_after_def)
    then show ?thesis by (simp add: run)
  qed
  have goes_on: "prefix (deliveries L ms oks) (fst (Run L E p env))
                 \<and> (rest = [] \<longrightarrow> Run L E p env = (deliveries L ms oks, None))"
    if "\<forall>j<length ms. \<not> stop_after (Req p) ms oks j"
  proof -
    have "\<forall>j<length ms. \<not> (sint (req_EndOffset (Req p)) \<le> sint (m_Offset (ms ! j))
            \<or> 0 + of_nat (accepted_count (take (Suc j) oks)) = req_MaxMessageCount (Req p))"
      using that by (simp add: stop_after_def)
    from loop_goes_on_without_bound [OF assms(4) this, of rest] obtain f' where
      l: "loop L E (Req p) f 0 ?evs
          = (deliveries L ms oks @ fst (loop L E (Req p) f' (0 + of_nat (accepted_count oks)) rest),
             snd (loop L E (Req p) f' (0 + of_nat (accepted_count oks)) rest))"
      by blast
    have "prefix (deliveries L ms oks) (fst (Run L E p env))"
      unfolding run l by (simp split: option.split)
    moreover have "Run L E p env = (deliveries L ms oks, None)" if "rest = []"
      unfolding run l using that by simp
    ultimately show ?thesis by simp
  qed
  have three: "sent (fst (Run L E p env)) = map (topicMessage L) (take 3 ms)
               \<and> length (sent (fst (Run L E p env))) = 3
               \<and> snd (Run L E p env) = Some BoundsReached"
    if len: "length ms = 10" and all: "\<forall>ok \<in> set oks. ok"
      and mx: "req_MaxMessageCount (Req p) = 3"
      and lt: "\<forall>j<3. sint (m_Offset (ms ! j)) < sint (req_EndOffset (Req p))"
  proof -
    have lo: "length oks = 10"
      using arg_cong [OF assms(4), of length] len by (simp add: length_filter_all)
    have cnt: "accepted_count (take (Suc j) oks) = Suc j" if "j < 3" for j
      using that lo by (simp add: accepted_count_all [OF all])
    have s2: "stop_after (Req p) ms oks 2"
      using cnt [of 2] mx by (simp add: stop_after_def)
    have n2: "\<not> stop_after (Req p) ms oks j" if "j < 2" for j
    proof -
      from that have "j = 0 \<or> j = 1" by auto
      then have "(of_nat (Suc j) :: int64) \<noteq> 3" by auto
      moreover from that lt have "\<not> sint (req_EndOffset (Req p)) \<le> sint (m_Offset (ms ! j))"
        by (simp add: not_le)
      ultimately show ?thesis using cnt [of j] that mx by (simp add: stop_after_def)
    qed
    from stops [of 2] len s2 n2
    have r: "Run L E p env
             = (deliveries L (take 3 ms) (take 3 oks) @ [Close, DoneCh], Some BoundsReached)"
      by (simp add: numeral_3_eq_3)
    have "sent (deliveries L (take 3 ms) (take 3 oks)) = map (topicMessage L) (take 3 ms)"
      using len lo all by (intro sent_deliveries_all) (auto dest: in_set_takeD)
    with r len show ?thesis by (simp add: sent_append)
  qed
  from stops goes_on three show ?thesis by blast
qed

theorem Run_stops_at_first_bound_witness:
  "sent (fst (Run table_libs (script_engine even_offsets truthy) (consumer [] (request 0 100 3))
             \<lparr>ConsumePartition = None, choices = records_at [0, 1, 2, 3, 4, 5, 6, 7, 8, 9]\<rparr>))
     = map (topicMessage table_libs) [record_at 0 [0x6B] [0x76], record_at 1 [0x6B] [0x76],
                                      record_at 2 [0x6B] [0x76]]
   \<and> snd (Run table_libs (script_engine even_offsets truthy) (consumer [] (request 0 100 3))
             \<lparr>ConsumePartition = None, choices = records_at [0, 1, 2, 3, 4, 5, 6, 7, 8, 9]\<rparr>)
     = Some BoundsReached
   \<and> map tm_Offset
        (sent (fst (Run table_libs (script_engine even_offsets truthy)
                      (consumer ''return offset % 2 == 0'' (request 10 15 100))
                      \<lparr>ConsumePartition = None,
                         choices = records_at [10, 11, 12, 13, 14, 15] @ [CtxDone]\<rparr>)))
     = [10, 12, 14]
   \<and> snd (Run table_libs (script_engine even_offsets truthy)
             (consumer ''return offset % 2 == 0'' (request 10 15 100))
             \<lparr>ConsumePartition = None,
                choices = records_at [10, 11, 12, 13, 14, 15] @ [CtxDone]\<rparr>)
     = Some BoundsReached"
proof -
  let ?ms = "map (\<lambda>off. record_at off [0x6B] [0x76]) [0, 1, 2, 3, 4, 5, 6, 7, 8, 9]"
  let ?env = "\<lparr>ConsumePartition = None, choices = records_at [0, 1, 2, 3, 4, 5, 6, 7, 8, 9]\<rparr>"
  let ?E = "script_engine even_offsets truthy"
  let ?p = "consumer [] (request 0 100 3)"
  have a1: "ConsumePartition ?env = None" by simp
  have a2: "SetupInterpreter ?E ?p = Inr None" by (simp add: SetupInterpreter_def consumer_def)
  have a3: "choices ?env = map (\<lambda>m. Recv m ReceiverTakes) ?ms @ []" by (simp add: records_at_def)
  have a4: "filter_all table_libs ?E None ?ms = map (\<lambda>b. Returns (b, None)) (replicate 10 True)"
    by (simp add: isMessageOK_def numeral_eq_Suc)
  have h: "length ?ms = 10 \<and> (\<forall>ok \<in> set (replicate 10 True). ok)
           \<and> req_MaxMessageCount (Req ?p) = 3
           \<and> (\<forall>j<3. sint (m_Offset (?ms ! j)) < sint (req_EndOffset (Req ?p)))"
    by (simp add: consumer_def request_def record_at_def numeral_3_eq_3 less_Suc_eq)
  from Run_stops_at_first_bound [OF a1 a2 a3 a4] h
  have first: "sent (fst (Run table_libs ?E ?p ?env)) = map (topicMessage table_libs) (take 3 ?ms)
        \<and> snd (Run table_libs ?E ?p ?env) = Some BoundsReached"
    by blast
  let ?ms' = "map (\<lambda>off. record_at off [0x6B] [0x76]) [10, 11, 12, 13, 14, 15]"
  let ?oks' = "[True, False, True, False, True, False]"
  let ?env' = "\<lparr>ConsumePartition = None, choices = records_at [10, 11, 12, 13, 14, 15] @ [CtxDone]\<rparr>"
  let ?p' = "consumer ''return offset % 2 == 0'' (request 10 15 100)"
  have b1: "ConsumePartition ?env' = None" by simp
  have b2: "SetupInterpreter ?E ?p' = Inr (Some 0)"
    by (simp add: SetupInterpreter_def consumer_def script_engine_def)
  have b3: "choices ?env' = map (\<lambda>m. Recv m ReceiverTakes) ?ms' @ [CtxDone]"
    by (simp add: records_at_def)
  have b4: "filter_all table_libs ?E (Some 0) ?ms' = map (\<lambda>b. Returns (b, None)) ?oks'"
    by (simp add: isMessageOK_def isMessageOk_def args_of_def fixture_defs slice_def
        getValue_k getValue_v)
  have b5: "stop_after (Req ?p') ?ms' ?oks' 5"
    by (simp add: stop_after_def consumer_def request_def record_at_def)
  have b6: "\<forall>j<5. \<not> stop_after (Req ?p') ?ms' ?oks' j"
  proof (intro allI impI)
    fix j :: nat assume "j < 5"
    then consider "j = 0" | "j = 1" | "j = 2" | "j = 3" | "j = 4" by linarith
    then show "\<not> stop_after (Req ?p') ?ms' ?oks' j"
      by cases
        (simp_all add: stop_after_def accepted_count_def consumer_def request_def record_at_def)
  qed
  have b7: "5 < length ?ms'" by simp
  from Run_stops_at_first_bound [OF b1 b2 b3 b4]
  have "\<forall>k<length ?ms'.
          stop_after (Req ?p') ?ms' ?oks' k \<and> (\<forall>j<k. \<not> stop_after (Req ?p') ?ms' ?oks' j) \<longrightarrow>
          Run table_libs ?E ?p' ?env'
          = (deliveries table_libs (take (Suc k) ?ms') (take (Suc k) ?oks') @ [Close, DoneCh],
             Some BoundsReached)"
    by (rule conjunct1)
  with b5 b6 b7
  have "Run table_libs ?E ?p' ?env'
        = (deliveries table_libs (take (Suc 5) ?ms') (take (Suc 5) ?oks') @ [Close, DoneCh],
           Some BoundsReached)"
    by blast
  then have second: "map tm_Offset (sent (fst (Run table_libs ?E ?p' ?env'))) = [10, 12, 14]
        \<and> snd (Run table_libs ?E ?p' ?env') = Some BoundsReached"
    by (simp add: tm_Offset_topicMessage record_at_def)
  from first second show ?thesis by simp
qed

end
